theory Spec2Isabelle
  imports Complex_Main "HOL-Library.Char_ord"
begin

section \<open>Break and retest scanner: data model\<close>

text \<open>
  The pattern detector of \<^verbatim>\<open>scanner/break_retest.py\<close>, the scan service of
  \<^verbatim>\<open>scanner/service.py\<close> and the scheduler of \<^verbatim>\<open>scanner/scheduler.py\<close>.
  Prices are Python floats in the source; here they are real numbers, so infinities and
  NaN are outside the model. The arithmetic of the detector is taken on the reals; the
  price band of the duplicate check, whose ends decide the cases at its boundary, is
  rounded to double precision as the source computes it. Python integers are \<open>int\<close>.
  Timestamps are integers (milliseconds for candles, microseconds for database rows).
\<close>

datatype error = IndexError | ZeroDivisionError | ValueError | ProviderError

text \<open>A row of the OHLCV data frame; \<open>open_time\<close> is its index label.\<close>

record candle =
  open_time :: int
  c_open :: real
  high :: real
  low :: real
  close :: real
  volume :: real

datatype PatternType = BULLISH_RETEST | BEARISH_RETEST

record Level =
  price :: real
  strength :: int
  first_touch :: int
  last_touch :: int
  is_broken :: bool
  break_direction :: "string option"
  break_time :: "int option"

text \<open>
  A detected signal. The source's \<open>message\<close> field is a formatted rendering of the
  other fields and is left out.
\<close>

record Signal =
  sig_symbol :: string
  sig_timeframe :: string
  sig_pattern_type :: PatternType
  sig_level_price :: real
  sig_current_price :: real
  distance_to_level_pct :: real
  sig_timestamp :: int
  sig_strength :: int

text \<open>The fields set by \<open>BreakRetestDetector.__init__\<close>.\<close>

record detector =
  pivot_lookback :: int
  level_tolerance_pct :: real
  min_touches :: int
  retest_tolerance_pct :: real
  min_breakout_pct :: real
  max_retest_candles :: int

section \<open>Indexing as Python does it\<close>

text \<open>
  Positional indexing of a numpy array or through \<open>.iloc\<close>: a negative index counts
  from the end, anything else out of range raises IndexError.
\<close>

definition np_index :: "'a list \<Rightarrow> int \<Rightarrow> error + 'a" where
  "np_index xs i =
     (let n = int (length xs) in
      if 0 \<le> i \<and> i < n then Inr (xs ! nat i)
      else if - n \<le> i \<and> i < 0 then Inr (xs ! nat (n + i))
      else Inl IndexError)"

definition iloc_set :: "'a list \<Rightarrow> int \<Rightarrow> 'a \<Rightarrow> error + 'a list" where
  "iloc_set xs i v =
     (let n = int (length xs) in
      if 0 \<le> i \<and> i < n then Inr (xs[nat i := v])
      else if - n \<le> i \<and> i < 0 then Inr (xs[nat (n + i) := v])
      else Inl IndexError)"

text \<open>\<open>range(a, b)\<close> and \<open>range(a, b, -1)\<close>.\<close>

definition py_range :: "int \<Rightarrow> int \<Rightarrow> int list" where
  "py_range a b = [a..b - 1]"

definition py_range_down :: "int \<Rightarrow> int \<Rightarrow> int list" where
  "py_range_down a b = rev [b + 1..a]"

text \<open>The slice \<open>xs[a:b]\<close> for \<open>0 \<le> a\<close> and \<open>0 \<le> b\<close>, and \<open>xs[k:]\<close> for any \<open>k\<close>.\<close>

definition slice :: "'a list \<Rightarrow> nat \<Rightarrow> nat \<Rightarrow> 'a list" where
  "slice xs a b = take (b - a) (drop a xs)"

definition slice_from :: "'a list \<Rightarrow> int \<Rightarrow> 'a list" where
  "slice_from xs k =
     (if 0 \<le> k then drop (nat k) xs else drop (nat (int (length xs) + k)) xs)"

definition mean :: "real list \<Rightarrow> real" where
  "mean xs = sum_list xs / real (length xs)"

fun py_min :: "int list \<Rightarrow> error + int" where
  "py_min [] = Inl ValueError"
| "py_min (x # xs) = Inr (fold min xs x)"

fun py_max :: "int list \<Rightarrow> error + int" where
  "py_max [] = Inl ValueError"
| "py_max (x # xs) = Inr (fold max xs x)"

section \<open>Pivots\<close>

text \<open>
  The inner loop of \<open>find_pivot_highs\<close> over \<open>j\<close>: the result is the final value of
  \<open>is_pivot\<close>. The \<open>or\<close> of the source does not read \<open>highs[i + j]\<close> when its left
  operand already holds.
\<close>

fun is_pivot_high :: "real list \<Rightarrow> int \<Rightarrow> int list \<Rightarrow> error + bool" where
  "is_pivot_high highs i [] = Inr True"
| "is_pivot_high highs i (j # js) =
     (case np_index highs i of Inl e \<Rightarrow> Inl e | Inr a \<Rightarrow>
      (case np_index highs (i - j) of Inl e \<Rightarrow> Inl e | Inr b \<Rightarrow>
       if a \<le> b then Inr False
       else (case np_index highs (i + j) of Inl e \<Rightarrow> Inl e | Inr c \<Rightarrow>
             if a \<le> c then Inr False else is_pivot_high highs i js)))"

fun is_pivot_low :: "real list \<Rightarrow> int \<Rightarrow> int list \<Rightarrow> error + bool" where
  "is_pivot_low lows i [] = Inr True"
| "is_pivot_low lows i (j # js) =
     (case np_index lows i of Inl e \<Rightarrow> Inl e | Inr a \<Rightarrow>
      (case np_index lows (i - j) of Inl e \<Rightarrow> Inl e | Inr b \<Rightarrow>
       if a \<ge> b then Inr False
       else (case np_index lows (i + j) of Inl e \<Rightarrow> Inl e | Inr c \<Rightarrow>
             if a \<ge> c then Inr False else is_pivot_low lows i js)))"

text \<open>
  The outer loop over \<open>i\<close>. The series of pivots has one entry for each candle,
  \<open>None\<close> where the source leaves NaN.
\<close>

fun pivot_high_loop ::
  "int \<Rightarrow> real list \<Rightarrow> int list \<Rightarrow> real option list \<Rightarrow> error + real option list" where
  "pivot_high_loop lb highs [] acc = Inr acc"
| "pivot_high_loop lb highs (i # is) acc =
     (case is_pivot_high highs i (py_range 1 (lb + 1)) of Inl e \<Rightarrow> Inl e | Inr is_pivot \<Rightarrow>
      if is_pivot then
        (case np_index highs i of Inl e \<Rightarrow> Inl e | Inr v \<Rightarrow>
         (case iloc_set acc i (Some v) of Inl e \<Rightarrow> Inl e | Inr acc' \<Rightarrow>
          pivot_high_loop lb highs is acc'))
      else pivot_high_loop lb highs is acc)"

fun pivot_low_loop ::
  "int \<Rightarrow> real list \<Rightarrow> int list \<Rightarrow> real option list \<Rightarrow> error + real option list" where
  "pivot_low_loop lb lows [] acc = Inr acc"
| "pivot_low_loop lb lows (i # is) acc =
     (case is_pivot_low lows i (py_range 1 (lb + 1)) of Inl e \<Rightarrow> Inl e | Inr is_pivot \<Rightarrow>
      if is_pivot then
        (case np_index lows i of Inl e \<Rightarrow> Inl e | Inr v \<Rightarrow>
         (case iloc_set acc i (Some v) of Inl e \<Rightarrow> Inl e | Inr acc' \<Rightarrow>
          pivot_low_loop lb lows is acc'))
      else pivot_low_loop lb lows is acc)"

definition find_pivot_highs :: "detector \<Rightarrow> candle list \<Rightarrow> error + real option list" where
  "find_pivot_highs self df =
     (let highs = map high df;
          lb = pivot_lookback self
      in pivot_high_loop lb highs (py_range lb (int (length highs) - lb))
           (replicate (length df) None))"

definition find_pivot_lows :: "detector \<Rightarrow> candle list \<Rightarrow> error + real option list" where
  "find_pivot_lows self df =
     (let lows = map low df;
          lb = pivot_lookback self
      in pivot_low_loop lb lows (py_range lb (int (length lows) - lb))
           (replicate (length df) None))"

section \<open>Clustering pivots into levels\<close>

text \<open>Reading a Python list at an index that is never negative.\<close>

definition list_get :: "'a list \<Rightarrow> nat \<Rightarrow> error + 'a" where
  "list_get xs i = (if i < length xs then Inr (xs ! i) else Inl IndexError)"

text \<open>
  The inner loop of \<open>cluster_levels\<close> over \<open>j\<close>; the state is
  \<open>(cluster_prices, cluster_times, used)\<close>. Dividing a Python float by zero raises.
\<close>

fun cluster_inner ::
  "detector \<Rightarrow> real list \<Rightarrow> int list \<Rightarrow> real \<Rightarrow> nat list \<Rightarrow>
   real list \<times> int list \<times> bool list \<Rightarrow> error + real list \<times> int list \<times> bool list" where
  "cluster_inner self prices timestamps p [] st = Inr st"
| "cluster_inner self prices timestamps p (j # js) (cluster_prices, cluster_times, used) =
     (if used ! j then cluster_inner self prices timestamps p js (cluster_prices, cluster_times, used)
      else if p = 0 then Inl ZeroDivisionError
      else
        let diff_pct = \<bar>prices ! j - p\<bar> / p * 100 in
        if diff_pct \<le> level_tolerance_pct self then
          (case list_get timestamps j of Inl e \<Rightarrow> Inl e | Inr t \<Rightarrow>
           cluster_inner self prices timestamps p js
             (cluster_prices @ [prices ! j], cluster_times @ [t], used[j := True]))
        else cluster_inner self prices timestamps p js (cluster_prices, cluster_times, used))"

definition make_level :: "real list \<Rightarrow> int list \<Rightarrow> error + Level" where
  "make_level cluster_prices cluster_times =
     (case py_min cluster_times of Inl e \<Rightarrow> Inl e | Inr t0 \<Rightarrow>
      (case py_max cluster_times of Inl e \<Rightarrow> Inl e | Inr t1 \<Rightarrow>
       Inr \<lparr>price = mean cluster_prices, strength = int (length cluster_prices),
            first_touch = t0, last_touch = t1, is_broken = False,
            break_direction = None, break_time = None\<rparr>))"

text \<open>The outer loop over \<open>i\<close>; the state is \<open>(levels, used)\<close>.\<close>

fun cluster_outer ::
  "detector \<Rightarrow> real list \<Rightarrow> int list \<Rightarrow> nat list \<Rightarrow> Level list \<times> bool list \<Rightarrow>
   error + Level list" where
  "cluster_outer self prices timestamps [] (levels, used) = Inr levels"
| "cluster_outer self prices timestamps (i # is) (levels, used) =
     (if used ! i then cluster_outer self prices timestamps is (levels, used)
      else
        (case list_get timestamps i of Inl e \<Rightarrow> Inl e | Inr t \<Rightarrow>
         (case cluster_inner self prices timestamps (prices ! i) [Suc i..<length prices]
                 ([prices ! i], [t], used[i := True]) of
            Inl e \<Rightarrow> Inl e
          | Inr (cluster_prices, cluster_times, used') \<Rightarrow>
              if int (length cluster_prices) \<ge> min_touches self then
                (case make_level cluster_prices cluster_times of Inl e \<Rightarrow> Inl e | Inr l \<Rightarrow>
                 cluster_outer self prices timestamps is (levels @ [l], used'))
              else cluster_outer self prices timestamps is (levels, used'))))"

definition cluster_levels :: "detector \<Rightarrow> real list \<Rightarrow> int list \<Rightarrow> error + Level list" where
  "cluster_levels self prices timestamps =
     (if prices = [] then Inr []
      else
        (case cluster_outer self prices timestamps [0..<length prices]
                ([], replicate (length prices) False) of
           Inl e \<Rightarrow> Inl e
         | Inr levels \<Rightarrow> Inr (sort_key price levels)))"

text \<open>\<open>dropna()\<close> on a pivot series: the values, and the index labels that carry them.\<close>

definition dropna_values :: "real option list \<Rightarrow> real list" where
  "dropna_values ps = List.map_filter (\<lambda>x. x) ps"

definition dropna_index :: "candle list \<Rightarrow> real option list \<Rightarrow> int list" where
  "dropna_index df ps = map (open_time \<circ> fst) (filter (\<lambda>(c, p). p \<noteq> None) (zip df ps))"

definition identify_levels :: "detector \<Rightarrow> candle list \<Rightarrow> error + Level list \<times> Level list" where
  "identify_levels self df =
     (case find_pivot_highs self df of Inl e \<Rightarrow> Inl e | Inr pivot_highs \<Rightarrow>
      (case find_pivot_lows self df of Inl e \<Rightarrow> Inl e | Inr pivot_lows \<Rightarrow>
       (case cluster_levels self (dropna_values pivot_highs) (dropna_index df pivot_highs) of
          Inl e \<Rightarrow> Inl e
        | Inr resistances \<Rightarrow>
            (case cluster_levels self (dropna_values pivot_lows) (dropna_index df pivot_lows) of
               Inl e \<Rightarrow> Inl e
             | Inr supports \<Rightarrow> Inr (resistances, supports)))))"

section \<open>Breakout and retest\<close>

text \<open>
  The test made at index \<open>i\<close> of the scan in \<open>check_breakout\<close>; \<open>i\<close> is a valid
  position of the frame.
\<close>

definition breakout_at :: "detector \<Rightarrow> candle list \<Rightarrow> Level \<Rightarrow> bool \<Rightarrow> nat \<Rightarrow> bool" where
  "breakout_at self df level is_resistance i =
     (let candle = df ! i;
          prev_candles = slice df (nat (max 0 (int i - 5))) i
      in if is_resistance then
           close candle > price level * (1 + min_breakout_pct self / 100) \<and>
           length prev_candles > 0 \<and> mean (map close prev_candles) < price level
         else
           close candle < price level * (1 - min_breakout_pct self / 100) \<and>
           length prev_candles > 0 \<and> mean (map close prev_candles) > price level)"

fun breakout_scan :: "detector \<Rightarrow> candle list \<Rightarrow> Level \<Rightarrow> bool \<Rightarrow> int list \<Rightarrow> int option" where
  "breakout_scan self df level is_resistance [] = None"
| "breakout_scan self df level is_resistance (i # is) =
     (if breakout_at self df level is_resistance (nat i) then Some i
      else breakout_scan self df level is_resistance is)"

definition check_breakout ::
  "detector \<Rightarrow> candle list \<Rightarrow> Level \<Rightarrow> bool \<Rightarrow> error + int option" where
  "check_breakout self df level is_resistance =
     (case np_index (map close df) (- 1) of Inl e \<Rightarrow> Inl e | Inr current_price \<Rightarrow>
      Inr (breakout_scan self df level is_resistance
             (py_range_down (int (length df) - 1)
                (max 0 (int (length df) - max_retest_candles self)))))"

text \<open>
  The maximum and minimum of a column; the source's NaN for an empty column makes
  every comparison false, which is what \<open>None\<close> does in \<open>check_retest\<close> below.
\<close>

fun col_max :: "real list \<Rightarrow> real option" where
  "col_max [] = None"
| "col_max (x # xs) = Some (fold max xs x)"

fun col_min :: "real list \<Rightarrow> real option" where
  "col_min [] = None"
| "col_min (x # xs) = Some (fold min xs x)"

definition check_retest ::
  "detector \<Rightarrow> candle list \<Rightarrow> Level \<Rightarrow> int \<Rightarrow> bool \<Rightarrow> error + bool" where
  "check_retest self df level breakout_idx is_bullish =
     (if breakout_idx \<ge> int (length df) - 1 then Inr False
      else
        (case np_index (map close df) (- 1) of Inl e \<Rightarrow> Inl e | Inr current_price \<Rightarrow>
         (case np_index (map low df) (- 1) of Inl e \<Rightarrow> Inl e | Inr current_low \<Rightarrow>
          (case np_index (map high df) (- 1) of Inl e \<Rightarrow> Inl e | Inr current_high \<Rightarrow>
           if is_bullish then
             (let touching_level =
                    (current_low \<le> price level * (1 + retest_tolerance_pct self / 100) \<and>
                     current_price \<ge> price level * (1 - retest_tolerance_pct self / 100));
                  post_breakout = slice_from df breakout_idx;
                  went_higher =
                    (case col_max (map high post_breakout) of None \<Rightarrow> False
                     | Some m \<Rightarrow> m > price level * (1 + min_breakout_pct self / 100))
              in Inr (touching_level \<and> went_higher))
           else
             (let touching_level =
                    (current_high \<ge> price level * (1 - retest_tolerance_pct self / 100) \<and>
                     current_price \<le> price level * (1 + retest_tolerance_pct self / 100));
                  post_breakout = slice_from df breakout_idx;
                  went_lower =
                    (case col_min (map low post_breakout) of None \<Rightarrow> False
                     | Some m \<Rightarrow> m < price level * (1 - min_breakout_pct self / 100))
              in Inr (touching_level \<and> went_lower))))))"

section \<open>Detection\<close>

text \<open>
  One pass of either loop of \<open>detect\<close> over the levels of one kind; \<open>bullish\<close> is
  true for the resistances. A level whose price is zero gives the source an infinite
  or undefined distance, where the model has \<open>0\<close>.
\<close>

fun detect_loop ::
  "detector \<Rightarrow> candle list \<Rightarrow> string \<Rightarrow> string \<Rightarrow> real \<Rightarrow> int \<Rightarrow> bool \<Rightarrow>
   Level list \<Rightarrow> Signal list \<Rightarrow> error + Signal list" where
  "detect_loop self df symbol timeframe current_price current_time bullish [] signals =
     Inr signals"
| "detect_loop self df symbol timeframe current_price current_time bullish (l # ls) signals =
     (case check_breakout self df l bullish of Inl e \<Rightarrow> Inl e
      | Inr None \<Rightarrow>
          detect_loop self df symbol timeframe current_price current_time bullish ls signals
      | Inr (Some breakout_idx) \<Rightarrow>
          (case check_retest self df l breakout_idx bullish of Inl e \<Rightarrow> Inl e
           | Inr False \<Rightarrow>
               detect_loop self df symbol timeframe current_price current_time bullish ls signals
           | Inr True \<Rightarrow>
               detect_loop self df symbol timeframe current_price current_time bullish ls
                 (signals @
                  [\<lparr>sig_symbol = symbol, sig_timeframe = timeframe,
                    sig_pattern_type = (if bullish then BULLISH_RETEST else BEARISH_RETEST),
                    sig_level_price = price l, sig_current_price = current_price,
                    distance_to_level_pct = (current_price - price l) / price l * 100,
                    sig_timestamp = current_time, sig_strength = strength l\<rparr>])))"

definition detect :: "detector \<Rightarrow> candle list \<Rightarrow> string \<Rightarrow> string \<Rightarrow> error + Signal list" where
  "detect self df symbol timeframe =
     (if int (length df) < pivot_lookback self * 2 + max_retest_candles self then Inr []
      else
        (case identify_levels self df of Inl e \<Rightarrow> Inl e | Inr (resistances, supports) \<Rightarrow>
         (case np_index (map close df) (- 1) of Inl e \<Rightarrow> Inl e | Inr current_price \<Rightarrow>
          (case np_index (map open_time df) (- 1) of Inl e \<Rightarrow> Inl e | Inr current_time \<Rightarrow>
           (case detect_loop self df symbol timeframe current_price current_time True
                   resistances [] of
              Inl e \<Rightarrow> Inl e
            | Inr signals \<Rightarrow>
                detect_loop self df symbol timeframe current_price current_time False
                  supports signals)))))"

definition create_detector :: "string \<Rightarrow> detector" where
  "create_detector sensitivity =
     (if sensitivity = ''low'' then
        \<lparr>pivot_lookback = 15, level_tolerance_pct = 2 / 10, min_touches = 3,
         retest_tolerance_pct = 3 / 10, min_breakout_pct = 8 / 10, max_retest_candles = 30\<rparr>
      else if sensitivity = ''high'' then
        \<lparr>pivot_lookback = 5, level_tolerance_pct = 5 / 10, min_touches = 2,
         retest_tolerance_pct = 8 / 10, min_breakout_pct = 3 / 10, max_retest_candles = 80\<rparr>
      else
        \<lparr>pivot_lookback = 10, level_tolerance_pct = 3 / 10, min_touches = 2,
         retest_tolerance_pct = 5 / 10, min_breakout_pct = 5 / 10, max_retest_candles = 50\<rparr>)"

section \<open>Double-precision arithmetic\<close>

text \<open>
  Rounding a real number to the nearest double, a tie going to the even significand:
  \<open>binade x\<close> is the exponent \<open>e\<close> with \<open>2^e \<le> x < 2^(e+1)\<close>, and a double in that
  binade is a multiple of \<open>2^(e-52)\<close>. Overflow and subnormal numbers are left out: no
  price is that large or that small.
\<close>

definition rne :: "real \<Rightarrow> int" where
  "rne y = (let f = \<lfloor>y\<rfloor>; d = y - of_int f
            in if d < 1 / 2 then f else if d > 1 / 2 then f + 1
               else if even f then f else f + 1)"

function binade :: "real \<Rightarrow> int" where
  "binade x = (if 2 \<le> x then binade (x / 2) + 1
               else if 0 < x \<and> x < 1 then binade (x * 2) - 1
               else 0)"
  by pat_completeness auto
termination
proof (relation "measure (\<lambda>x. if 2 \<le> x then nat \<lceil>x\<rceil>
                               else if 0 < x \<and> x < 1 then nat \<lceil>1 / x\<rceil> else 0)")
  show "wf (measure (\<lambda>x. if 2 \<le> x then nat \<lceil>x\<rceil>
                               else if 0 < x \<and> x < 1 then nat \<lceil>1 / x\<rceil> else 0))"
    by simp
next
  fix x :: real
  assume x: "2 \<le> x"
  have "\<lceil>x / 2\<rceil> \<le> \<lceil>x - 1\<rceil>" using x by (intro ceiling_mono) simp
  then have "\<lceil>x / 2\<rceil> < \<lceil>x\<rceil>" by simp
  moreover have "0 < \<lceil>x\<rceil>" using x by (simp add: ceiling_less_iff less_ceiling_iff)
  ultimately show "(x / 2, x) \<in> measure (\<lambda>x. if 2 \<le> x then nat \<lceil>x\<rceil>
                               else if 0 < x \<and> x < 1 then nat \<lceil>1 / x\<rceil> else 0)"
    using x by auto
next
  fix x :: real
  assume x: "\<not> 2 \<le> x" "0 < x \<and> x < 1"
  have y: "1 < 1 / x" using x by simp
  have pos: "0 < \<lceil>1 / x\<rceil>" using x by simp
  show "(x * 2, x) \<in> measure (\<lambda>x. if 2 \<le> x then nat \<lceil>x\<rceil>
                               else if 0 < x \<and> x < 1 then nat \<lceil>1 / x\<rceil> else 0)"
  proof (cases "x * 2 < 1")
    case True
    then have "2 \<le> 1 / x" using x by (simp add: field_simps)
    then have "1 / (x * 2) \<le> 1 / x - 1" using x by (simp add: field_simps)
    then have "\<lceil>1 / (x * 2)\<rceil> \<le> \<lceil>1 / x - 1\<rceil>" by (rule ceiling_mono)
    then have "\<lceil>1 / (x * 2)\<rceil> < \<lceil>1 / x\<rceil>" by simp
    then show ?thesis using x True pos by auto
  next
    case False
    then show ?thesis using x pos by auto
  qed
qed

declare binade.simps [simp del]

definition double :: "real \<Rightarrow> real" where
  "double x = (if x = 0 then 0
               else let ulp = 2 powi (binade \<bar>x\<bar> - 52)
                    in of_int (rne (x / ulp)) * ulp)"

text \<open>The product, sum and difference of two floats, as Python computes them.\<close>

definition fmul :: "real \<Rightarrow> real \<Rightarrow> real" where
  "fmul a b = double (a * b)"

definition fadd :: "real \<Rightarrow> real \<Rightarrow> real" where
  "fadd a b = double (a + b)"

definition fsub :: "real \<Rightarrow> real \<Rightarrow> real" where
  "fsub a b = double (a - b)"

section \<open>The scan service\<close>

text \<open>Rows of the tables \<open>scan_results\<close>, \<open>scan_executions\<close> and \<open>watchlist_items\<close>.\<close>

record ScanResult =
  sr_id :: int
  sr_user_id :: int
  sr_symbol :: string
  sr_timeframe :: string
  sr_pattern_type :: string
  sr_level_price :: real
  sr_current_price :: real
  confidence_score :: real
  is_match :: bool
  sr_created_at :: int

record ScanExecution =
  se_user_id :: int
  symbols_scanned :: int
  signals_found :: int
  se_sensitivity :: string
  se_created_at :: int

record WatchlistItem =
  wl_user_id :: int
  wl_symbol :: string
  timeframes :: "string list"
  is_active :: bool

record database =
  scan_results :: "ScanResult list"
  scan_executions :: "ScanExecution list"
  watchlist_items :: "WatchlistItem list"

definition pattern_value :: "PatternType \<Rightarrow> string" where
  "pattern_value p = (case p of BULLISH_RETEST \<Rightarrow> ''bullish_retest''
                      | BEARISH_RETEST \<Rightarrow> ''bearish_retest'')"

definition DUPLICATE_WINDOW_HOURS :: int where
  "DUPLICATE_WINDOW_HOURS = 24"

text \<open>The literal \<open>0.005\<close> is the double nearest to it.\<close>

definition PRICE_TOLERANCE :: real where
  "PRICE_TOLERANCE = double (5 / 1000)"

text \<open>One hour in microseconds, the resolution of \<open>datetime\<close>.\<close>

definition hour :: int where
  "hour = 3600000000"

text \<open>
  \<open>_signal_exists\<close>. \<open>now\<close> is what \<open>datetime.now()\<close> returns in the application; the
  \<open>created_at\<close> of a row is what the database wrote when the row was inserted, and the
  query compares the two as they are.
\<close>

definition signal_exists ::
  "int \<Rightarrow> database \<Rightarrow> int \<Rightarrow> string \<Rightarrow> string \<Rightarrow> string \<Rightarrow> real \<Rightarrow> bool" where
  "signal_exists now db user_id symbol timeframe pattern_type level_price =
     (let cutoff = now - DUPLICATE_WINDOW_HOURS * hour;
          price_low = fmul level_price (fsub 1 PRICE_TOLERANCE);
          price_high = fmul level_price (fadd 1 PRICE_TOLERANCE);
          count = length (filter (\<lambda>r.
                    sr_user_id r = user_id \<and> sr_symbol r = symbol \<and>
                    sr_timeframe r = timeframe \<and> sr_pattern_type r = pattern_type \<and>
                    sr_level_price r \<ge> price_low \<and> sr_level_price r \<le> price_high \<and>
                    sr_created_at r \<ge> cutoff) (scan_results db))
      in count > 0)"

text \<open>\<open>str.upper\<close> on ASCII text.\<close>

definition upper_char :: "char \<Rightarrow> char" where
  "upper_char c =
     (if CHR ''a'' \<le> c \<and> c \<le> CHR ''z'' then char_of (of_char c - (32::nat)) else c)"

definition upper :: "string \<Rightarrow> string" where
  "upper s = map upper_char s"

text \<open>The watchlist query of \<open>run_scan\<close>; an absent or empty \<open>symbols\<close> does not filter.\<close>

definition watchlist_query :: "database \<Rightarrow> int \<Rightarrow> string list option \<Rightarrow> WatchlistItem list" where
  "watchlist_query db user_id symbols =
     filter (\<lambda>w. wl_user_id w = user_id \<and> is_active w \<and>
                 (case symbols of None \<Rightarrow> True
                  | Some ss \<Rightarrow> ss = [] \<or> wl_symbol w \<in> set (map upper ss)))
       (watchlist_items db)"

text \<open>
  The loop of \<open>run_scan\<close> over the signals of one symbol and timeframe. The session
  does not flush before a query (\<open>autoflush=False\<close>), so \<open>_signal_exists\<close> sees the
  committed rows only, not the results added earlier in the same scan; \<open>results\<close> holds
  the signals whose rows are pending.
\<close>

fun save_signals ::
  "int \<Rightarrow> database \<Rightarrow> int \<Rightarrow> Signal list \<Rightarrow> Signal list \<Rightarrow> Signal list" where
  "save_signals now db user_id [] results = results"
| "save_signals now db user_id (signal # signals) results =
     (let is_duplicate = signal_exists now db user_id (sig_symbol signal) (sig_timeframe signal)
                           (pattern_value (sig_pattern_type signal)) (sig_level_price signal)
      in if is_duplicate then save_signals now db user_id signals results
         else save_signals now db user_id signals (results @ [signal]))"

text \<open>
  The body of the \<open>try\<close> for one symbol and timeframe: a failure of the price-series
  provider or of the detector is caught and the pair is skipped.
\<close>

definition scan_pair ::
  "(string \<Rightarrow> string \<Rightarrow> int \<Rightarrow> error + candle list) \<Rightarrow> int \<Rightarrow> database \<Rightarrow> detector \<Rightarrow>
   int \<Rightarrow> string \<Rightarrow> string \<Rightarrow> Signal list \<Rightarrow> Signal list" where
  "scan_pair get_klines_df now db self user_id symbol tf results =
     (case get_klines_df symbol tf 500 of Inl e \<Rightarrow> results
      | Inr df \<Rightarrow>
          (case detect self df symbol tf of Inl e \<Rightarrow> results
           | Inr signals \<Rightarrow> save_signals now db user_id signals results))"

fun scan_items ::
  "(string \<Rightarrow> string \<Rightarrow> int \<Rightarrow> error + candle list) \<Rightarrow> int \<Rightarrow> database \<Rightarrow> detector \<Rightarrow>
   int \<Rightarrow> string list option \<Rightarrow> WatchlistItem list \<Rightarrow> Signal list \<Rightarrow> Signal list" where
  "scan_items get_klines_df now db self user_id tfs_arg [] results = results"
| "scan_items get_klines_df now db self user_id tfs_arg (item # items) results =
     (let tfs = (case tfs_arg of None \<Rightarrow> timeframes item
                 | Some ts \<Rightarrow> if ts = [] then timeframes item else ts)
      in scan_items get_klines_df now db self user_id tfs_arg items
           (fold (\<lambda>tf. scan_pair get_klines_df now db self user_id (wl_symbol item) tf)
              tfs results))"

text \<open>
  The commit: each pending row is inserted in the order it was added. The table gives
  it the next key, and the server default gives it \<open>db_now\<close>, the database's reading of
  its own clock, as \<open>created_at\<close>.
\<close>

definition next_id :: "ScanResult list \<Rightarrow> int" where
  "next_id rs = fold max (map sr_id rs) 0 + 1"

definition new_result :: "int \<Rightarrow> Signal \<Rightarrow> int \<Rightarrow> int \<Rightarrow> ScanResult" where
  "new_result user_id signal key created =
     \<lparr>sr_id = key, sr_user_id = user_id,
      sr_symbol = sig_symbol signal, sr_timeframe = sig_timeframe signal,
      sr_pattern_type = pattern_value (sig_pattern_type signal),
      sr_level_price = sig_level_price signal,
      sr_current_price = sig_current_price signal,
      confidence_score = real_of_int (sig_strength signal) / 10,
      is_match = True, sr_created_at = created\<rparr>"

fun insert_results ::
  "int \<Rightarrow> int \<Rightarrow> Signal list \<Rightarrow> ScanResult list \<Rightarrow> ScanResult list \<times> ScanResult list" where
  "insert_results db_now user_id [] rows = ([], rows)"
| "insert_results db_now user_id (signal # signals) rows =
     (let result = new_result user_id signal (next_id rows) db_now;
          (results, rows') = insert_results db_now user_id signals (rows @ [result])
      in (result # results, rows'))"

text \<open>
  \<open>run_scan\<close> returns the list \<open>results\<close>, as refreshed after the commit, and leaves the
  store as returned here.
\<close>

definition run_scan ::
  "(string \<Rightarrow> string \<Rightarrow> int \<Rightarrow> error + candle list) \<Rightarrow> int \<Rightarrow> int \<Rightarrow> database \<Rightarrow> int \<Rightarrow>
   string list option \<Rightarrow> string list option \<Rightarrow> string \<Rightarrow> ScanResult list \<times> database" where
  "run_scan get_klines_df now db_now db user_id symbols tfs_arg sensitivity =
     (let self = create_detector sensitivity;
          watchlist = watchlist_query db user_id symbols
      in if watchlist = [] then ([], db)
         else
           let pending = scan_items get_klines_df now db self user_id tfs_arg watchlist [];
               (results, rows) = insert_results db_now user_id pending (scan_results db);
               execution = \<lparr>se_user_id = user_id, symbols_scanned = int (length watchlist),
                            signals_found = int (length pending),
                            se_sensitivity = sensitivity, se_created_at = db_now\<rparr>
           in (results, db\<lparr>scan_results := rows,
                            scan_executions := scan_executions db @ [execution]\<rparr>))"

text \<open>
  \<open>round(x, 2)\<close>: to two decimals, a tie going to the even neighbour.
\<close>

definition py_round2 :: "real \<Rightarrow> real" where
  "py_round2 x =
     (let y = x * 100; f = \<lfloor>y\<rfloor>; d = y - of_int f
      in of_int (if d < 1 / 2 then f else if d > 1 / 2 then f + 1
                 else if even f then f else f + 1) / 100)"

type_synonym signal_key = "string \<times> string \<times> string \<times> real"

definition signal_key :: "ScanResult \<Rightarrow> signal_key" where
  "signal_key signal =
     (sr_symbol signal, sr_timeframe signal, sr_pattern_type signal,
      py_round2 (sr_level_price signal))"

text \<open>The loop of \<open>clear_duplicate_signals\<close>; the state is \<open>(seen, duplicates_to_delete)\<close>.\<close>

fun mark_duplicates ::
  "ScanResult list \<Rightarrow> (signal_key \<rightharpoonup> int) \<times> int list \<Rightarrow> (signal_key \<rightharpoonup> int) \<times> int list" where
  "mark_duplicates [] st = st"
| "mark_duplicates (signal # signals) (seen, duplicates_to_delete) =
     (let key = signal_key signal
      in if seen key \<noteq> None then
           mark_duplicates signals (seen, duplicates_to_delete @ [sr_id signal])
         else mark_duplicates signals (seen(key \<mapsto> sr_id signal), duplicates_to_delete))"

text \<open>
  \<open>clear_duplicate_signals\<close> returns the number of rows deleted and leaves the store as
  returned here. Rows with the same creation time keep their stored order in the
  query's result.
\<close>

definition clear_duplicate_signals :: "database \<Rightarrow> int \<Rightarrow> int \<times> database" where
  "clear_duplicate_signals db user_id =
     (let all_signals = sort_key sr_created_at
                          (filter (\<lambda>r. sr_user_id r = user_id) (scan_results db));
          (seen, duplicates_to_delete) = mark_duplicates all_signals (Map.empty, [])
      in if duplicates_to_delete \<noteq> [] then
           (int (length duplicates_to_delete),
            db\<lparr>scan_results :=
                 filter (\<lambda>r. sr_id r \<notin> set duplicates_to_delete) (scan_results db)\<rparr>)
         else (int (length duplicates_to_delete), db))"

section \<open>The scheduler\<close>

text \<open>An entry of the mailbox \<open>new_signals\<close>, built from a stored result.\<close>

record entry =
  e_id :: int
  e_symbol :: string
  e_timeframe :: string
  e_pattern_type :: string
  e_level_price :: real
  e_current_price :: real
  e_created_at :: int

text \<open>
  The state of \<open>ScannerScheduler\<close>. Of the scheduling library it keeps whether the
  scheduler has been started and the interval of the job \<open>auto_scanner\<close>, if there is one.
\<close>

record ScannerScheduler =
  is_running :: bool
  interval_minutes :: int
  last_scan_time :: "int option"
  new_signals :: "int \<rightharpoonup> entry list"
  scheduler_running :: bool
  auto_scanner_job :: "int option"

definition init :: ScannerScheduler where
  "init = \<lparr>is_running = False, interval_minutes = 5, last_scan_time = None,
           new_signals = Map.empty, scheduler_running = False, auto_scanner_job = None\<rparr>"

definition start :: "int \<Rightarrow> ScannerScheduler \<Rightarrow> ScannerScheduler" where
  "start interval s =
     (if is_running s then s
      else s\<lparr>interval_minutes := interval, auto_scanner_job := Some interval,
              scheduler_running := True, is_running := True\<rparr>)"

definition stop :: "ScannerScheduler \<Rightarrow> ScannerScheduler" where
  "stop s =
     (if \<not> is_running s then s
      else s\<lparr>auto_scanner_job := None, is_running := False\<rparr>)"

record status =
  st_is_running :: bool
  st_interval_minutes :: int
  st_last_scan :: "int option"

definition get_status :: "ScannerScheduler \<Rightarrow> status" where
  "get_status s = \<lparr>st_is_running = is_running s, st_interval_minutes = interval_minutes s,
                   st_last_scan = last_scan_time s\<rparr>"

text \<open>\<open>get_new_signals\<close>: \<open>dict.pop(user_id, [])\<close>.\<close>

definition get_new_signals :: "int \<Rightarrow> ScannerScheduler \<Rightarrow> entry list \<times> ScannerScheduler" where
  "get_new_signals user_id s =
     (case new_signals s user_id of
        None \<Rightarrow> ([], s)
      | Some signals \<Rightarrow> (signals, s\<lparr>new_signals := (new_signals s)(user_id := None)\<rparr>))"

text \<open>The part of a tick that files the results of one user's scan.\<close>

definition entry_of :: "ScanResult \<Rightarrow> entry" where
  "entry_of r = \<lparr>e_id = sr_id r, e_symbol = sr_symbol r, e_timeframe = sr_timeframe r,
                 e_pattern_type = sr_pattern_type r, e_level_price = sr_level_price r,
                 e_current_price = sr_current_price r, e_created_at = sr_created_at r\<rparr>"

definition store_new_signals :: "int \<Rightarrow> ScanResult list \<Rightarrow> ScannerScheduler \<Rightarrow> ScannerScheduler" where
  "store_new_signals user_id results s =
     (if results = [] then s
      else
        let queued = (case new_signals s user_id of None \<Rightarrow> [] | Some es \<Rightarrow> es)
        in s\<lparr>new_signals := (new_signals s)(user_id \<mapsto> queued @ map entry_of results)\<rparr>)"

text \<open>The endpoint \<open>/auto/start\<close> of the router, which clamps the requested interval.\<close>

definition start_auto_scanner :: "int \<Rightarrow> ScannerScheduler \<Rightarrow> ScannerScheduler" where
  "start_auto_scanner requested s = (let interval = max 1 (min 60 requested) in start interval s)"

section \<open>Predicates and data used in the statements\<close>

text \<open>
  The pivot condition as the specification words it: the value at \<open>i\<close> strictly
  above (below) the values \<open>j\<close> places before and after, for every \<open>j\<close> from 1 to
  the lookback.
\<close>

definition pivot_high_at :: "int \<Rightarrow> real list \<Rightarrow> nat \<Rightarrow> bool" where
  "pivot_high_at lb highs i \<longleftrightarrow>
     (\<forall>j\<in>{1..lb}. highs ! i > highs ! nat (int i - j) \<and> highs ! i > highs ! nat (int i + j))"

definition pivot_low_at :: "int \<Rightarrow> real list \<Rightarrow> nat \<Rightarrow> bool" where
  "pivot_low_at lb lows i \<longleftrightarrow>
     (\<forall>j\<in>{1..lb}. lows ! i < lows ! nat (int i - j) \<and> lows ! i < lows ! nat (int i + j))"

text \<open>
  The rows that the loop of \<open>clear_duplicate_signals\<close> keeps and the rows it marks, as
  functions of the keys already seen.
\<close>

fun kept_rows :: "ScanResult list \<Rightarrow> signal_key set \<Rightarrow> ScanResult list" where
  "kept_rows [] S = []"
| "kept_rows (x # xs) S =
     (if signal_key x \<in> S then kept_rows xs S else x # kept_rows xs (insert (signal_key x) S))"

fun duplicate_rows :: "ScanResult list \<Rightarrow> signal_key set \<Rightarrow> ScanResult list" where
  "duplicate_rows [] S = []"
| "duplicate_rows (x # xs) S =
     (if signal_key x \<in> S then x # duplicate_rows xs S
      else duplicate_rows xs (insert (signal_key x) S))"

text \<open>The test of the inner loop of \<open>cluster_levels\<close>: \<open>x\<close> is within the tolerance of the seed \<open>p\<close>.\<close>

definition near :: "detector \<Rightarrow> real \<Rightarrow> real \<Rightarrow> bool" where
  "near self p x \<longleftrightarrow> \<bar>x - p\<bar> / p * 100 \<le> level_tolerance_pct self"

text \<open>The level that a cluster of one price and one timestamp makes.\<close>

definition touch_level :: "real \<Rightarrow> int \<Rightarrow> Level" where
  "touch_level p t = \<lparr>price = p, strength = 1, first_touch = t, last_touch = t,
                      is_broken = False, break_direction = None, break_time = None\<rparr>"

text \<open>Sample data for the concrete instances below.\<close>

definition cd :: "real \<Rightarrow> real \<Rightarrow> candle" where
  "cd h l = \<lparr>open_time = 0, c_open = l, high = h, low = l, close = h, volume = 1\<rparr>"

definition det1 :: detector where
  "det1 = \<lparr>pivot_lookback = 1, level_tolerance_pct = 3 / 10, min_touches = 2,
           retest_tolerance_pct = 5 / 10, min_breakout_pct = 5 / 10, max_retest_candles = 3\<rparr>"

definition df5 :: "candle list" where
  "df5 = [cd 1 1, cd 3 0, cd 2 1, cd 2 2, cd 5 1]"

definition lvl :: "real \<Rightarrow> int \<Rightarrow> Level" where
  "lvl p k = \<lparr>price = p, strength = k, first_touch = 0, last_touch = 0, is_broken = False,
              break_direction = None, break_time = None\<rparr>"

definition e1 :: entry where
  "e1 = \<lparr>e_id = 1, e_symbol = ''BTCUSDT'', e_timeframe = ''1h'',
         e_pattern_type = ''bullish_retest'', e_level_price = 100, e_current_price = 101,
         e_created_at = 0\<rparr>"

definition db1 :: database where
  "db1 = \<lparr>scan_results = [], scan_executions = [],
          watchlist_items =
            [\<lparr>wl_user_id = 1, wl_symbol = ''BTCUSDT'', timeframes = [''1h''], is_active = False\<rparr>,
             \<lparr>wl_user_id = 2, wl_symbol = ''ETHUSDT'', timeframes = [''4h''], is_active = True\<rparr>]\<rparr>"

definition ohlc :: "real \<Rightarrow> real \<Rightarrow> real \<Rightarrow> candle" where
  "ohlc h l c = \<lparr>open_time = 0, c_open = c, high = h, low = l, close = c, volume = 1\<rparr>"

definition df7 :: "candle list" where
  "df7 = [ohlc 90 88 89, ohlc 100 98 99, ohlc 90 88 89, ohlc 100 98 99, ohlc 90 88 89,
          ohlc (205 / 2) 101 102, ohlc (1004 / 10) (1001 / 10) (1002 / 10)]"

definition det_one :: detector where
  "det_one = \<lparr>pivot_lookback = 10, level_tolerance_pct = 3 / 10, min_touches = 1,
              retest_tolerance_pct = 5 / 10, min_breakout_pct = 5 / 10, max_retest_candles = 50\<rparr>"

definition lv100 :: Level where
  "lv100 = \<lparr>price = 100, strength = 2, first_touch = 0, last_touch = 1, is_broken = False,
            break_direction = None, break_time = None\<rparr>"

definition lv200 :: Level where
  "lv200 = \<lparr>price = 200, strength = 2, first_touch = 2, last_touch = 3, is_broken = False,
            break_direction = None, break_time = None\<rparr>"

definition df70 :: "candle list" where
  "df70 = replicate 20 (cd 1 1) @ [cd 10 1] @ replicate 49 (cd 1 1)"

definition row :: "int \<Rightarrow> int \<Rightarrow> string \<Rightarrow> real \<Rightarrow> int \<Rightarrow> ScanResult" where
  "row i u s p t = \<lparr>sr_id = i, sr_user_id = u, sr_symbol = s, sr_timeframe = ''1h'',
     sr_pattern_type = ''bullish_retest'', sr_level_price = p, sr_current_price = p,
     confidence_score = 2 / 10, is_match = True, sr_created_at = t\<rparr>"




definition db3 :: database where
  "db3 = \<lparr>scan_results =
            [row 1 1 ''BTCUSDT'' (100001 / 1000) 5, row 2 1 ''BTCUSDT'' (100004 / 1000) 3,
             row 3 1 ''ETHUSDT'' 50 1, row 4 2 ''BTCUSDT'' (100001 / 1000) 0],
          scan_executions = [], watchlist_items = []\<rparr>"

definition db3' :: database where
  "db3' = \<lparr>scan_results =
            [row 2 1 ''BTCUSDT'' (100004 / 1000) 3,
             row 3 1 ''ETHUSDT'' 50 1, row 4 2 ''BTCUSDT'' (100001 / 1000) 0],
           scan_executions = [], watchlist_items = []\<rparr>"

section \<open>Pivot extraction\<close>

lemma np_index_in_range:
  "0 \<le> i \<Longrightarrow> i < int (length xs) \<Longrightarrow> np_index xs i = Inr (xs ! nat i)"
  by (simp add: np_index_def)

lemma iloc_set_in_range:
  "0 \<le> i \<Longrightarrow> i < int (length xs) \<Longrightarrow> iloc_set xs i v = Inr (xs[nat i := v])"
  by (simp add: iloc_set_def)

lemma is_pivot_high_interior:
  assumes "0 \<le> i" "i < int (length highs)"
    and "\<forall>j\<in>set js. 1 \<le> j \<and> j \<le> i \<and> i + j < int (length highs)"
  shows "is_pivot_high highs i js =
           Inr (\<forall>j\<in>set js. highs ! nat i > highs ! nat (i - j) \<and> highs ! nat i > highs ! nat (i + j))"
  using assms
proof (induction js)
  case Nil
  then show ?case by simp
next
  case (Cons j js)
  then have ij: "0 \<le> i - j" "i - j < int (length highs)" "0 \<le> i + j" "i + j < int (length highs)"
    by auto
  from Cons have IH: "is_pivot_high highs i js =
           Inr (\<forall>j\<in>set js. highs ! nat i > highs ! nat (i - j) \<and> highs ! nat i > highs ! nat (i + j))"
    by simp
  show ?case
    using Cons.prems(1,2) ij IH by (auto simp add: np_index_in_range)
qed

lemma is_pivot_low_interior:
  assumes "0 \<le> i" "i < int (length lows)"
    and "\<forall>j\<in>set js. 1 \<le> j \<and> j \<le> i \<and> i + j < int (length lows)"
  shows "is_pivot_low lows i js =
           Inr (\<forall>j\<in>set js. lows ! nat i < lows ! nat (i - j) \<and> lows ! nat i < lows ! nat (i + j))"
  using assms
proof (induction js)
  case Nil
  then show ?case by simp
next
  case (Cons j js)
  then have ij: "0 \<le> i - j" "i - j < int (length lows)" "0 \<le> i + j" "i + j < int (length lows)"
    by auto
  from Cons have IH: "is_pivot_low lows i js =
           Inr (\<forall>j\<in>set js. lows ! nat i < lows ! nat (i - j) \<and> lows ! nat i < lows ! nat (i + j))"
    by simp
  show ?case
    using Cons.prems(1,2) ij IH by (auto simp add: np_index_in_range)
qed

lemma pivot_high_loop_interior:
  assumes "\<forall>i\<in>set is. lb \<le> i \<and> i < int (length highs) - lb" "0 \<le> lb"
    and "length acc = length highs"
  shows "\<exists>acc'. pivot_high_loop lb highs is acc = Inr acc' \<and> length acc' = length acc \<and>
           (\<forall>k<length acc. acc' ! k =
              (if int k \<in> set is \<and> pivot_high_at lb highs k then Some (highs ! k) else acc ! k))"
  using assms
proof (induction "is" arbitrary: acc)
  case Nil
  then show ?case by simp
next
  case (Cons i "is")
  have i: "0 \<le> i" "i < int (length highs)" "lb \<le> i" "i < int (length highs) - lb"
    using Cons.prems by auto
  have inner: "is_pivot_high highs i (py_range 1 (lb + 1)) = Inr (pivot_high_at lb highs (nat i))"
    using is_pivot_high_interior [of i highs "py_range 1 (lb + 1)"] i
    by (simp add: py_range_def pivot_high_at_def)
  show ?case
  proof (cases "pivot_high_at lb highs (nat i)")
    case False
    from Cons.IH [of acc] Cons.prems obtain acc' where
      a: "pivot_high_loop lb highs is acc = Inr acc'" "length acc' = length acc"
         "\<forall>k<length acc. acc' ! k =
              (if int k \<in> set is \<and> pivot_high_at lb highs k then Some (highs ! k) else acc ! k)"
      by auto
    have "\<forall>k<length acc. acc' ! k =
              (if int k \<in> set (i # is) \<and> pivot_high_at lb highs k then Some (highs ! k) else acc ! k)"
      using a(3) False by auto
    then show ?thesis using a(1,2) inner False by simp
  next
    case True
    let ?acc1 = "acc[nat i := Some (highs ! nat i)]"
    from Cons.IH [of ?acc1] Cons.prems obtain acc' where
      a: "pivot_high_loop lb highs is ?acc1 = Inr acc'" "length acc' = length ?acc1"
         "\<forall>k<length ?acc1. acc' ! k =
              (if int k \<in> set is \<and> pivot_high_at lb highs k then Some (highs ! k) else ?acc1 ! k)"
      by auto
    have "\<forall>k<length acc. acc' ! k =
              (if int k \<in> set (i # is) \<and> pivot_high_at lb highs k then Some (highs ! k) else acc ! k)"
    proof (intro allI impI)
      fix k assume k: "k < length acc"
      show "acc' ! k =
              (if int k \<in> set (i # is) \<and> pivot_high_at lb highs k then Some (highs ! k) else acc ! k)"
      proof (cases "k = nat i")
        case True
        then show ?thesis using a(3) k \<open>pivot_high_at lb highs (nat i)\<close> i by auto
      next
        case False
        then have "int k \<noteq> i" using i by auto
        then show ?thesis using a(3) k False by auto
      qed
    qed
    moreover have "pivot_high_loop lb highs (i # is) acc = Inr acc'"
      using inner True a(1) i Cons.prems(3)
      by (simp add: np_index_in_range iloc_set_in_range)
    ultimately show ?thesis using a(2) by simp
  qed
qed

lemma pivot_low_loop_interior:
  assumes "\<forall>i\<in>set is. lb \<le> i \<and> i < int (length lows) - lb" "0 \<le> lb"
    and "length acc = length lows"
  shows "\<exists>acc'. pivot_low_loop lb lows is acc = Inr acc' \<and> length acc' = length acc \<and>
           (\<forall>k<length acc. acc' ! k =
              (if int k \<in> set is \<and> pivot_low_at lb lows k then Some (lows ! k) else acc ! k))"
  using assms
proof (induction "is" arbitrary: acc)
  case Nil
  then show ?case by simp
next
  case (Cons i "is")
  have i: "0 \<le> i" "i < int (length lows)" "lb \<le> i" "i < int (length lows) - lb"
    using Cons.prems by auto
  have inner: "is_pivot_low lows i (py_range 1 (lb + 1)) = Inr (pivot_low_at lb lows (nat i))"
    using is_pivot_low_interior [of i lows "py_range 1 (lb + 1)"] i
    by (simp add: py_range_def pivot_low_at_def)
  show ?case
  proof (cases "pivot_low_at lb lows (nat i)")
    case False
    from Cons.IH [of acc] Cons.prems obtain acc' where
      a: "pivot_low_loop lb lows is acc = Inr acc'" "length acc' = length acc"
         "\<forall>k<length acc. acc' ! k =
              (if int k \<in> set is \<and> pivot_low_at lb lows k then Some (lows ! k) else acc ! k)"
      by auto
    have "\<forall>k<length acc. acc' ! k =
              (if int k \<in> set (i # is) \<and> pivot_low_at lb lows k then Some (lows ! k) else acc ! k)"
      using a(3) False by auto
    then show ?thesis using a(1,2) inner False by simp
  next
    case True
    let ?acc1 = "acc[nat i := Some (lows ! nat i)]"
    from Cons.IH [of ?acc1] Cons.prems obtain acc' where
      a: "pivot_low_loop lb lows is ?acc1 = Inr acc'" "length acc' = length ?acc1"
         "\<forall>k<length ?acc1. acc' ! k =
              (if int k \<in> set is \<and> pivot_low_at lb lows k then Some (lows ! k) else ?acc1 ! k)"
      by auto
    have "\<forall>k<length acc. acc' ! k =
              (if int k \<in> set (i # is) \<and> pivot_low_at lb lows k then Some (lows ! k) else acc ! k)"
    proof (intro allI impI)
      fix k assume k: "k < length acc"
      show "acc' ! k =
              (if int k \<in> set (i # is) \<and> pivot_low_at lb lows k then Some (lows ! k) else acc ! k)"
      proof (cases "k = nat i")
        case True
        then show ?thesis using a(3) k \<open>pivot_low_at lb lows (nat i)\<close> i by auto
      next
        case False
        then have "int k \<noteq> i" using i by auto
        then show ?thesis using a(3) k False by auto
      qed
    qed
    moreover have "pivot_low_loop lb lows (i # is) acc = Inr acc'"
      using inner True a(1) i Cons.prems(3)
      by (simp add: np_index_in_range iloc_set_in_range)
    ultimately show ?thesis using a(2) by simp
  qed
qed

text \<open>
  C2. With a lookback of at least 1, \<open>find_pivot_highs\<close> returns a series as long as the
  frame, and flags index \<open>i\<close> exactly when \<open>lookback \<le> i < n - lookback\<close> and the high
  at \<open>i\<close> is strictly greater than the highs \<open>j\<close> places before and after it for every
  \<open>j\<close> in \<open>[1, lookback]\<close>; the flagged entry carries that high. \<open>find_pivot_lows\<close> is
  the strict mirror on the lows. A frame shorter than \<open>2 * lookback + 1\<close> has no pivots.
\<close>

theorem find_pivots_characterised:
  assumes "1 \<le> pivot_lookback self"
  shows "\<exists>hs ls. find_pivot_highs self df = Inr hs \<and> find_pivot_lows self df = Inr ls
     \<and> length hs = length df \<and> length ls = length df
     \<and> (\<forall>i<length df. (hs ! i \<noteq> None) =
           (pivot_lookback self \<le> int i \<and> int i < int (length df) - pivot_lookback self \<and>
            (\<forall>j\<in>{1..pivot_lookback self}.
               high (df ! i) > high (df ! nat (int i - j)) \<and>
               high (df ! i) > high (df ! nat (int i + j)))))
     \<and> (\<forall>i<length df. (ls ! i \<noteq> None) =
           (pivot_lookback self \<le> int i \<and> int i < int (length df) - pivot_lookback self \<and>
            (\<forall>j\<in>{1..pivot_lookback self}.
               low (df ! i) < low (df ! nat (int i - j)) \<and>
               low (df ! i) < low (df ! nat (int i + j)))))
     \<and> (\<forall>i<length df. hs ! i \<noteq> None \<longrightarrow> hs ! i = Some (high (df ! i)))
     \<and> (\<forall>i<length df. ls ! i \<noteq> None \<longrightarrow> ls ! i = Some (low (df ! i)))
     \<and> (int (length df) < 2 * pivot_lookback self + 1 \<longrightarrow>
          (\<forall>i<length df. hs ! i = None \<and> ls ! i = None))"
proof -
  let ?lb = "pivot_lookback self"
  let ?n = "int (length df)"
  let ?is = "py_range ?lb (?n - ?lb)"
  have rng: "\<forall>i\<in>set ?is. ?lb \<le> i \<and> i < int (length (map high df)) - ?lb"
    "\<forall>i\<in>set ?is. ?lb \<le> i \<and> i < int (length (map low df)) - ?lb"
    by (auto simp add: py_range_def)
  have mem: "\<And>k. int k \<in> set ?is \<longleftrightarrow> ?lb \<le> int k \<and> int k < ?n - ?lb"
    by (auto simp add: py_range_def)
  from pivot_high_loop_interior [OF rng(1), of "replicate (length df) None"] assms
  obtain hs where hs: "pivot_high_loop ?lb (map high df) ?is (replicate (length df) None) = Inr hs"
    "length hs = length df"
    "\<forall>k<length df. hs ! k =
        (if int k \<in> set ?is \<and> pivot_high_at ?lb (map high df) k then Some (map high df ! k) else None)"
    by auto
  from pivot_low_loop_interior [OF rng(2), of "replicate (length df) None"] assms
  obtain ls where ls: "pivot_low_loop ?lb (map low df) ?is (replicate (length df) None) = Inr ls"
    "length ls = length df"
    "\<forall>k<length df. ls ! k =
        (if int k \<in> set ?is \<and> pivot_low_at ?lb (map low df) k then Some (map low df ! k) else None)"
    by auto
  have hat: "pivot_high_at ?lb (map high df) i =
      (\<forall>j\<in>{1..?lb}. high (df ! i) > high (df ! nat (int i - j)) \<and>
                      high (df ! i) > high (df ! nat (int i + j)))"
    if "i < length df" "?lb \<le> int i" "int i < ?n - ?lb" for i
    unfolding pivot_high_at_def using that
    by (intro ball_cong refl) (simp add: nat_less_iff)
  have lat: "pivot_low_at ?lb (map low df) i =
      (\<forall>j\<in>{1..?lb}. low (df ! i) < low (df ! nat (int i - j)) \<and>
                      low (df ! i) < low (df ! nat (int i + j)))"
    if "i < length df" "?lb \<le> int i" "int i < ?n - ?lb" for i
    unfolding pivot_low_at_def using that
    by (intro ball_cong refl) (simp add: nat_less_iff)
  have H: "\<forall>i<length df. (hs ! i \<noteq> None) =
           (?lb \<le> int i \<and> int i < ?n - ?lb \<and>
            (\<forall>j\<in>{1..?lb}. high (df ! i) > high (df ! nat (int i - j)) \<and>
                           high (df ! i) > high (df ! nat (int i + j))))"
    using hs(3) mem hat by auto
  have L: "\<forall>i<length df. (ls ! i \<noteq> None) =
           (?lb \<le> int i \<and> int i < ?n - ?lb \<and>
            (\<forall>j\<in>{1..?lb}. low (df ! i) < low (df ! nat (int i - j)) \<and>
                           low (df ! i) < low (df ! nat (int i + j))))"
    using ls(3) mem lat by auto
  have HV: "\<forall>i<length df. hs ! i \<noteq> None \<longrightarrow> hs ! i = Some (high (df ! i))"
    using hs(3) by (auto split: if_splits)
  have LV: "\<forall>i<length df. ls ! i \<noteq> None \<longrightarrow> ls ! i = Some (low (df ! i))"
    using ls(3) by (auto split: if_splits)
  have S: "?n < 2 * ?lb + 1 \<longrightarrow> (\<forall>i<length df. hs ! i = None \<and> ls ! i = None)"
    using hs(3) ls(3) mem by auto
  have "find_pivot_highs self df = Inr hs" "find_pivot_lows self df = Inr ls"
    using hs(1) ls(1) by (simp_all add: find_pivot_highs_def find_pivot_lows_def)
  then show ?thesis using hs(2) ls(2) H L HV LV S by blast
qed

theorem find_pivots_characterised_witness:
  "1 \<le> pivot_lookback det1
   \<and> find_pivot_highs det1 df5 = Inr [None, Some 3, None, None, None]
   \<and> find_pivot_lows det1 df5 = Inr [None, Some 0, None, None, None]
   \<and> high (df5 ! 1) > high (df5 ! nat (int 1 - 1)) \<and> high (df5 ! 1) > high (df5 ! nat (int 1 + 1))"
proof -
  have a: "1 \<le> pivot_lookback det1" by (simp add: det1_def)
  have b: "find_pivot_highs det1 df5 = Inr [None, Some 3, None, None, None]" by code_simp
  have c: "find_pivot_lows det1 df5 = Inr [None, Some 0, None, None, None]" by code_simp
  have d: "1 < length df5" by (simp add: df5_def)
  from find_pivots_characterised [OF a, of df5]
  obtain hs where hs: "find_pivot_highs det1 df5 = Inr hs"
    "\<forall>i<length df5. (hs ! i \<noteq> None) =
           (pivot_lookback det1 \<le> int i \<and> int i < int (length df5) - pivot_lookback det1 \<and>
            (\<forall>j\<in>{1..pivot_lookback det1}.
               high (df5 ! i) > high (df5 ! nat (int i - j)) \<and>
               high (df5 ! i) > high (df5 ! nat (int i + j))))"
    by blast
  from hs(1) b have "hs = [None, Some 3, None, None, None]" by simp
  then have "hs ! 1 \<noteq> None" by simp
  with hs(2) d have "\<forall>j\<in>{1..pivot_lookback det1}.
               high (df5 ! 1) > high (df5 ! nat (int 1 - j)) \<and>
               high (df5 ! 1) > high (df5 ! nat (int 1 + j))"
    by blast
  moreover have "(1::int) \<in> {1..pivot_lookback det1}" using a by simp
  ultimately have "high (df5 ! 1) > high (df5 ! nat (int 1 - 1)) \<and>
                   high (df5 ! 1) > high (df5 ! nat (int 1 + 1))"
    by blast
  then show ?thesis using a b c by blast
qed

section \<open>Clustering\<close>

lemma make_level_single: "make_level [p] [t] = Inr (touch_level p t)"
  by (simp add: make_level_def touch_level_def mean_def)

lemma cluster_inner_zero_tolerance:
  assumes "0 < p" "level_tolerance_pct self = 0" "\<forall>j\<in>set js. prices ! j \<noteq> p"
  shows "cluster_inner self prices timestamps p js (cp, ct, used) = Inr (cp, ct, used)"
  using assms
proof (induction js)
  case Nil
  then show ?case by simp
next
  case (Cons j js)
  then have ne: "prices ! j \<noteq> p" by simp
  have "\<not> \<bar>prices ! j - p\<bar> / p * 100 \<le> 0"
    using ne \<open>0 < p\<close> by (simp add: divide_le_0_iff)
  then show ?case using Cons by (simp add: Let_def)
qed

lemma cluster_outer_zero_tolerance:
  assumes "level_tolerance_pct self = 0" "distinct prices" "\<forall>p\<in>set prices. 0 < p"
    and "length timestamps = length prices"
    and "distinct is" "\<forall>i\<in>set is. i < length prices \<and> \<not> used ! i"
    and "length used = length prices"
  shows "cluster_outer self prices timestamps is (levels, used) =
           Inr (levels @ (if min_touches self \<le> 1
                          then map (\<lambda>i. touch_level (prices ! i) (timestamps ! i)) is else []))"
  using assms(5-7)
proof (induction "is" arbitrary: levels used)
  case Nil
  then show ?case by simp
next
  case (Cons i "is")
  have i: "i < length prices" "\<not> used ! i" "i \<notin> set is" using Cons.prems by auto
  have pos: "0 < prices ! i" using assms(3) i(1) by simp
  have "\<forall>j\<in>set [Suc i..<length prices]. prices ! j \<noteq> prices ! i"
    using assms(2) i(1) by (auto simp add: nth_eq_iff_index_eq)
  then have inner: "cluster_inner self prices timestamps (prices ! i) [Suc i..<length prices]
                 ([prices ! i], [timestamps ! i], used[i := True])
               = Inr ([prices ! i], [timestamps ! i], used[i := True])"
    using cluster_inner_zero_tolerance [OF pos assms(1)] by blast
  have tg: "list_get timestamps i = Inr (timestamps ! i)"
    using i(1) assms(4) by (simp add: list_get_def)
  have rest: "cluster_outer self prices timestamps is (lv, used[i := True]) =
           Inr (lv @ (if min_touches self \<le> 1
                          then map (\<lambda>i. touch_level (prices ! i) (timestamps ! i)) is else []))" for lv
  proof (rule Cons.IH)
    show "distinct is" using Cons.prems by simp
    show "\<forall>k\<in>set is. k < length prices \<and> \<not> used[i := True] ! k"
      using Cons.prems i(3) by (auto simp add: nth_list_update)
    show "length (used[i := True]) = length prices" using Cons.prems by simp
  qed
  show ?case
    using i(2) tg inner rest by (simp add: make_level_single)
qed

lemma map_nth_zip:
  "length ys = length xs \<Longrightarrow> map (\<lambda>i. f (xs ! i) (ys ! i)) [0..<length xs] = map2 f xs ys"
  by (rule nth_equalityI) simp_all

lemma cluster_levels_sorted:
  "cluster_levels self prices timestamps = Inr levels \<Longrightarrow> sorted (map price levels)"
  by (auto simp add: cluster_levels_def split: if_splits sum.splits)

lemma near_iff: "0 < p \<Longrightarrow> near self p x \<longleftrightarrow> \<bar>x - p\<bar> * 100 \<le> level_tolerance_pct self * p"
  by (simp add: near_def field_simps)

lemma sum_list_lower: "\<forall>x\<in>set xs. c \<le> x \<Longrightarrow> c * real (length xs) \<le> sum_list xs"
  by (induction xs) (auto simp add: algebra_simps)

lemma sum_list_upper: "\<forall>x\<in>set xs. x \<le> c \<Longrightarrow> sum_list xs \<le> c * real (length xs)"
  by (induction xs) (auto simp add: algebra_simps)

lemma sum_list_lower_strict:
  "xs \<noteq> [] \<Longrightarrow> \<forall>x\<in>set xs. c < x \<Longrightarrow> c * real (length xs) < sum_list (xs :: real list)"
proof (induction xs)
  case Nil
  then show ?case by simp
next
  case (Cons a xs)
  have "c * real (length xs) \<le> sum_list xs"
    using Cons.prems by (intro sum_list_lower) auto
  moreover have "c < a" using Cons.prems by simp
  ultimately show ?case by (simp add: algebra_simps)
qed

lemma sum_list_upper_strict:
  "xs \<noteq> [] \<Longrightarrow> \<forall>x\<in>set xs. x < c \<Longrightarrow> sum_list (xs :: real list) < c * real (length xs)"
proof (induction xs)
  case Nil
  then show ?case by simp
next
  case (Cons a xs)
  have "sum_list xs \<le> c * real (length xs)"
    using Cons.prems by (intro sum_list_upper) auto
  moreover have "a < c" using Cons.prems by simp
  ultimately show ?case by (simp add: algebra_simps)
qed

lemma mean_lower: "xs \<noteq> [] \<Longrightarrow> \<forall>x\<in>set xs. c \<le> x \<Longrightarrow> c \<le> mean xs"
  using sum_list_lower [of xs c] by (simp add: mean_def pos_le_divide_eq)

lemma mean_upper: "xs \<noteq> [] \<Longrightarrow> \<forall>x\<in>set xs. x \<le> c \<Longrightarrow> mean xs \<le> c"
  using sum_list_upper [of xs c] by (simp add: mean_def pos_divide_le_eq)

lemma mean_lower_strict: "xs \<noteq> [] \<Longrightarrow> \<forall>x\<in>set xs. c < x \<Longrightarrow> c < mean xs"
  using sum_list_lower_strict [of xs c] by (simp add: mean_def pos_less_divide_eq)

lemma mean_upper_strict: "xs \<noteq> [] \<Longrightarrow> \<forall>x\<in>set xs. x < c \<Longrightarrow> mean xs < c"
  using sum_list_upper_strict [of xs c] by (simp add: mean_def pos_divide_less_eq)

text \<open>A member of a later cluster lies on the same side of an earlier seed's band as its own seed.\<close>

lemma same_side_above:
  fixes a b x t :: real
  assumes "0 < a" "0 < x" "0 \<le> t" "a < b"
    and "\<bar>x - b\<bar> * 100 \<le> t * b" "\<not> \<bar>x - a\<bar> * 100 \<le> t * a"
  shows "a * 100 + t * a < x * 100"
proof (rule ccontr)
  assume "\<not> a * 100 + t * a < x * 100"
  then have "x * 100 < a * (100 - t)" using assms(6) by (simp add: abs_if algebra_simps split: if_splits)
  moreover have "b * (100 - t) \<le> x * 100" using assms(5) by (simp add: abs_if algebra_simps split: if_splits)
  ultimately have lt: "b * (100 - t) < a * (100 - t)" by linarith
  show False
  proof (cases "0 < 100 - t")
    case True
    then have "b < a" using lt by (simp add: mult_less_cancel_right)
    then show False using assms(4) by simp
  next
    case False
    then have "a * (100 - t) \<le> 0" using assms(1) by (simp add: mult_le_0_iff)
    then show False using \<open>x * 100 < a * (100 - t)\<close> assms(2) by linarith
  qed
qed

lemma same_side_below:
  fixes a b x t :: real
  assumes "0 < a" "0 < x" "0 \<le> t" "b < a"
    and "\<bar>x - b\<bar> * 100 \<le> t * b" "\<not> \<bar>x - a\<bar> * 100 \<le> t * a"
  shows "x * 100 < a * 100 - t * a"
proof (rule ccontr)
  assume "\<not> x * 100 < a * 100 - t * a"
  then have "a * (100 + t) < x * 100" using assms(6) by (simp add: abs_if algebra_simps split: if_splits)
  moreover have "x * 100 \<le> b * (100 + t)" using assms(5) by (simp add: abs_if algebra_simps split: if_splits)
  ultimately have lt: "a * (100 + t) < b * (100 + t)" by linarith
  have "0 < 100 + t" using assms(3) by simp
  then have "a < b" using lt by (simp add: mult_less_cancel_right)
  then show False using assms(4) by simp
qed


lemma cluster_inner_result:
  assumes "cluster_inner self prices timestamps p js (cp, ct, used) = Inr (cp', ct', used')"
    and "\<forall>j\<in>set js. j < length used"
  shows "length used' = length used
       \<and> (\<forall>k<length used. used' ! k = (used ! k \<or> (k \<in> set js \<and> near self p (prices ! k))))
       \<and> (\<exists>ms. cp' = cp @ ms \<and>
             (\<forall>x\<in>set ms. \<exists>j\<in>set js. \<not> used ! j \<and> x = prices ! j \<and> near self p x))"
  using assms
proof (induction js arbitrary: cp ct used)
  case Nil
  then show ?case by simp
next
  case (Cons j js)
  have j: "j < length used" using Cons.prems(2) by simp
  show ?case
  proof (cases "used ! j")
    case True
    then have run: "cluster_inner self prices timestamps p js (cp, ct, used) = Inr (cp', ct', used')"
      using Cons.prems(1) by simp
    from Cons.IH [OF run] Cons.prems(2)
    have IH: "length used' = length used"
      "\<forall>k<length used. used' ! k = (used ! k \<or> (k \<in> set js \<and> near self p (prices ! k)))"
      "\<exists>ms. cp' = cp @ ms \<and>
             (\<forall>x\<in>set ms. \<exists>j\<in>set js. \<not> used ! j \<and> x = prices ! j \<and> near self p x)"
      by simp_all
    have "\<forall>k<length used. used' ! k = (used ! k \<or> (k \<in> set (j # js) \<and> near self p (prices ! k)))"
      using IH(2) True by auto
    moreover from IH(3) have "\<exists>ms. cp' = cp @ ms \<and>
             (\<forall>x\<in>set ms. \<exists>i\<in>set (j # js). \<not> used ! i \<and> x = prices ! i \<and> near self p x)"
      by fastforce
    ultimately show ?thesis using IH(1) by simp
  next
    case False
    then have p0: "p \<noteq> 0" using Cons.prems(1) by (auto split: if_splits)
    show ?thesis
    proof (cases "near self p (prices ! j)")
      case nr: False
      then have run: "cluster_inner self prices timestamps p js (cp, ct, used) = Inr (cp', ct', used')"
        using Cons.prems(1) False p0 by (simp add: near_def Let_def)
      from Cons.IH [OF run] Cons.prems(2)
      have IH: "length used' = length used"
        "\<forall>k<length used. used' ! k = (used ! k \<or> (k \<in> set js \<and> near self p (prices ! k)))"
        "\<exists>ms. cp' = cp @ ms \<and>
             (\<forall>x\<in>set ms. \<exists>j\<in>set js. \<not> used ! j \<and> x = prices ! j \<and> near self p x)"
        by simp_all
      have "\<forall>k<length used. used' ! k = (used ! k \<or> (k \<in> set (j # js) \<and> near self p (prices ! k)))"
        using IH(2) nr by auto
      moreover from IH(3) have "\<exists>ms. cp' = cp @ ms \<and>
             (\<forall>x\<in>set ms. \<exists>i\<in>set (j # js). \<not> used ! i \<and> x = prices ! i \<and> near self p x)"
        by fastforce
      ultimately show ?thesis using IH(1) by simp
    next
      case nr: True
      then obtain t where t: "list_get timestamps j = Inr t"
        and run: "cluster_inner self prices timestamps p js
                    (cp @ [prices ! j], ct @ [t], used[j := True]) = Inr (cp', ct', used')"
        using Cons.prems(1) False p0 by (auto simp add: near_def Let_def split: sum.splits)
      have "\<forall>i\<in>set js. i < length (used[j := True])" using Cons.prems(2) by simp
      from Cons.IH [OF run this]
      have IH: "length used' = length used"
        "\<forall>k<length used. used' ! k =
            (used[j := True] ! k \<or> (k \<in> set js \<and> near self p (prices ! k)))"
        "\<exists>ms. cp' = (cp @ [prices ! j]) @ ms \<and>
             (\<forall>x\<in>set ms. \<exists>i\<in>set js. \<not> used[j := True] ! i \<and> x = prices ! i \<and> near self p x)"
        by simp_all
      have a: "\<forall>k<length used. used' ! k =
                 (used ! k \<or> (k \<in> set (j # js) \<and> near self p (prices ! k)))"
      proof (intro allI impI)
        fix k assume k: "k < length used"
        show "used' ! k = (used ! k \<or> (k \<in> set (j # js) \<and> near self p (prices ! k)))"
          using IH(2) k nr j by (cases "k = j") (auto simp add: nth_list_update)
      qed
      from IH(3) obtain ms where ms: "cp' = (cp @ [prices ! j]) @ ms"
        "\<forall>x\<in>set ms. \<exists>i\<in>set js. \<not> used[j := True] ! i \<and> x = prices ! i \<and> near self p x"
        by blast
      have ms': "\<forall>x\<in>set ms. \<exists>i\<in>set (j # js). \<not> used ! i \<and> x = prices ! i \<and> near self p x"
      proof
        fix x assume "x \<in> set ms"
        with ms(2) obtain i where i: "i \<in> set js" "\<not> used[j := True] ! i" "x = prices ! i"
          "near self p x" by blast
        have "i < length used" using i(1) Cons.prems(2) by simp
        then have "i \<noteq> j" "\<not> used ! i"
          using i(2) by (cases "i = j"; simp add: nth_list_update)+
        then show "\<exists>i\<in>set (j # js). \<not> used ! i \<and> x = prices ! i \<and> near self p x"
          using i by auto
      qed
      have b: "\<exists>ms. cp' = cp @ ms \<and>
             (\<forall>x\<in>set ms. \<exists>i\<in>set (j # js). \<not> used ! i \<and> x = prices ! i \<and> near self p x)"
      proof (intro exI conjI)
        show "cp' = cp @ (prices ! j # ms)" using ms(1) by simp
        show "\<forall>x\<in>set (prices ! j # ms).
                \<exists>i\<in>set (j # js). \<not> used ! i \<and> x = prices ! i \<and> near self p x"
          using ms' False nr by auto
      qed
      show ?thesis using IH(1) a b by simp
    qed
  qed
qed


lemma band_bounds:
  fixes x b c :: real
  assumes "\<bar>x - b\<bar> * 100 \<le> c"
  shows "b - c / 100 \<le> x" and "x \<le> b + c / 100"
  using assms by (auto simp add: abs_if field_simps split: if_splits)

lemma band_from_bounds:
  fixes x b c :: real
  assumes "b - c / 100 \<le> x" "x \<le> b + c / 100"
  shows "\<bar>x - b\<bar> * 100 \<le> c"
  using assms by (auto simp add: abs_if field_simps split: if_splits)

lemma make_level_price: "make_level cp ct = Inr l \<Longrightarrow> price l = mean cp"
  by (auto simp add: make_level_def split: sum.splits)

lemma cluster_outer_distinct:
  assumes pos: "\<forall>p\<in>set prices. 0 < p" and tol: "0 \<le> level_tolerance_pct self"
  shows "cluster_outer self prices timestamps is (levels, used) = Inr out \<Longrightarrow>
         length used = length prices \<Longrightarrow> sorted_wrt (<) is \<Longrightarrow>
         \<forall>i\<in>set is. i < length prices \<Longrightarrow>
         \<forall>j<length prices. \<not> used ! j \<longrightarrow> j \<in> set is \<Longrightarrow>
         \<forall>l\<in>set levels. \<exists>a\<in>S. \<bar>price l - a\<bar> * 100 \<le> level_tolerance_pct self * a \<Longrightarrow>
         \<forall>a\<in>S. 0 < a \<and> (\<forall>j<length prices. \<not> used ! j \<longrightarrow> \<not> near self a (prices ! j)) \<Longrightarrow>
         distinct (map price levels) \<Longrightarrow> \<forall>l\<in>set levels. 0 < price l \<Longrightarrow>
         distinct (map price out) \<and> (\<forall>l\<in>set out. 0 < price l)"
proof (induction "is" arbitrary: levels used S)
  case Nil
  then show ?case by simp
next
  case (Cons i "is")
  let ?n = "length prices"
  let ?t = "level_tolerance_pct self"
  have i: "i < ?n" using Cons.prems(4) by simp
  have later: "\<forall>j\<in>set is. i < j" using Cons.prems(3) by simp
  show ?case
  proof (cases "used ! i")
    case True
    have run: "cluster_outer self prices timestamps is (levels, used) = Inr out"
      using Cons.prems(1) True by simp
    have J: "\<forall>j<?n. \<not> used ! j \<longrightarrow> j \<in> set is"
      using Cons.prems(5) True by auto
    show ?thesis
      using Cons.IH [OF run Cons.prems(2) _ _ J Cons.prems(6,7,8,9)] Cons.prems(3,4) by simp
  next
    case False
    let ?b = "prices ! i"
    let ?used0 = "used[i := True]"
    have b: "0 < ?b" using pos i by simp
    from Cons.prems(1) False obtain t cp' ct' used' where
      t: "list_get timestamps i = Inr t"
      and inner: "cluster_inner self prices timestamps ?b [Suc i..<?n] ([?b], [t], ?used0)
                    = Inr (cp', ct', used')"
      by (auto split: sum.splits)
    have "\<forall>j\<in>set [Suc i..<?n]. j < length ?used0" using Cons.prems(2) by simp
    from cluster_inner_result [OF inner this]
    have len': "length used' = ?n"
      and used': "\<forall>k<?n. used' ! k =
                    (?used0 ! k \<or> (k \<in> set [Suc i..<?n] \<and> near self ?b (prices ! k)))"
      and mem: "\<exists>ms. cp' = [?b] @ ms \<and>
             (\<forall>x\<in>set ms. \<exists>j\<in>set [Suc i..<?n]. \<not> ?used0 ! j \<and> x = prices ! j \<and> near self ?b x)"
      using Cons.prems(2) by simp_all
    have F1: "\<not> used ! k \<and> k \<noteq> i" if "k < ?n" "\<not> used' ! k" for k
      using used' that Cons.prems(2) by (cases "k = i") (auto simp add: nth_list_update)
    have J: "\<forall>j<?n. \<not> used' ! j \<longrightarrow> j \<in> set is"
      using F1 Cons.prems(5) by fastforce
    have F4: "\<not> near self ?b (prices ! j)" if "j < ?n" "\<not> used' ! j" for j
    proof -
      have "j \<in> set is" using J that by simp
      then have "i < j" using later by simp
      then have "j \<in> set [Suc i..<?n]" using that(1) by simp
      then show ?thesis using used' that by auto
    qed
    have nbb: "near self ?b ?b" using b tol by (simp add: near_def)
    have members: "0 < x \<and> near self ?b x \<and> (\<forall>a\<in>S. \<not> near self a x)" if "x \<in> set cp'" for x
    proof -
      from mem obtain ms where ms: "cp' = [?b] @ ms"
        "\<forall>x\<in>set ms. \<exists>j\<in>set [Suc i..<?n]. \<not> ?used0 ! j \<and> x = prices ! j \<and> near self ?b x"
        by blast
      show ?thesis
      proof (cases "x = ?b")
        case True
        then show ?thesis using b nbb Cons.prems(7) False i by auto
      next
        case xb: False
        then have "x \<in> set ms" using that ms(1) by simp
        with ms(2) obtain j where j: "j \<in> set [Suc i..<?n]" "\<not> ?used0 ! j" "x = prices ! j"
          "near self ?b x" by blast
        have jn: "j < ?n" "j \<noteq> i" using j(1) by auto
        then have "\<not> used ! j" using j(2) Cons.prems(2) by (simp add: nth_list_update)
        then have "\<forall>a\<in>S. \<not> near self a x" using Cons.prems(7) jn(1) j(3) by auto
        moreover have "0 < x" using pos jn(1) j(3) by simp
        ultimately show ?thesis using j(4) by simp
      qed
    qed
    have ne: "cp' \<noteq> []" using mem by auto
    let ?M = "mean cp'"
    have Mpos: "0 < ?M" using ne members by (intro mean_lower_strict) auto
    have mb: "\<bar>x - ?b\<bar> * 100 \<le> ?t * ?b" if "x \<in> set cp'" for x
      using members [OF that] near_iff [OF b] by simp
    have Mband: "\<bar>?M - ?b\<bar> * 100 \<le> ?t * ?b"
    proof -
      have "\<forall>x\<in>set cp'. ?b - ?t * ?b / 100 \<le> x"
      proof
        fix x assume "x \<in> set cp'"
        from mb [OF this] show "?b - ?t * ?b / 100 \<le> x" by (rule band_bounds)
      qed
      then have lo: "?b - ?t * ?b / 100 \<le> ?M" using ne by (intro mean_lower)
      have "\<forall>x\<in>set cp'. x \<le> ?b + ?t * ?b / 100"
      proof
        fix x assume "x \<in> set cp'"
        from mb [OF this] show "x \<le> ?b + ?t * ?b / 100" by (rule band_bounds)
      qed
      then have hi: "?M \<le> ?b + ?t * ?b / 100" using ne by (intro mean_upper)
      show ?thesis using lo hi by (rule band_from_bounds)
    qed
    have Mnew: "?M \<noteq> price l" if l: "l \<in> set levels" for l
    proof -
      from Cons.prems(6) l obtain a where a: "a \<in> S" "\<bar>price l - a\<bar> * 100 \<le> ?t * a"
        by blast
      have apos: "0 < a" using Cons.prems(7) a(1) by simp
      have nab: "\<not> near self a ?b" using Cons.prems(7) a(1) i False by simp
      have "near self a a" using apos tol by (simp add: near_def)
      then have "a \<noteq> ?b" using nab by auto
      then consider "a < ?b" | "?b < a" by linarith
      then show ?thesis
      proof cases
        case 1
        have "\<forall>x\<in>set cp'. a + ?t * a / 100 < x"
        proof
          fix x assume x: "x \<in> set cp'"
          have "\<not> \<bar>x - a\<bar> * 100 \<le> ?t * a"
            using members [OF x] near_iff [OF apos] a(1) by blast
          with mb [OF x] members [OF x] have "a * 100 + ?t * a < x * 100"
            by (intro same_side_above [OF apos _ tol 1]) simp_all
          then show "a + ?t * a / 100 < x" by linarith
        qed
        then have "a + ?t * a / 100 < ?M" using ne by (intro mean_lower_strict)
        moreover have "price l \<le> a + ?t * a / 100"
          using a(2) by (rule band_bounds)
        ultimately show ?thesis by linarith
      next
        case 2
        have "\<forall>x\<in>set cp'. x < a - ?t * a / 100"
        proof
          fix x assume x: "x \<in> set cp'"
          have "\<not> \<bar>x - a\<bar> * 100 \<le> ?t * a"
            using members [OF x] near_iff [OF apos] a(1) by blast
          with mb [OF x] members [OF x] have "x * 100 < a * 100 - ?t * a"
            by (intro same_side_below [OF apos _ tol 2]) simp_all
          then show "x < a - ?t * a / 100" by linarith
        qed
        then have "?M < a - ?t * a / 100" using ne by (intro mean_upper_strict)
        moreover have "a - ?t * a / 100 \<le> price l"
          using a(2) by (rule band_bounds)
        ultimately show ?thesis by linarith
      qed
    qed
    have S7: "\<forall>a\<in>S. 0 < a \<and> (\<forall>j<?n. \<not> used' ! j \<longrightarrow> \<not> near self a (prices ! j))"
      using Cons.prems(7) F1 by blast
    have rest_sorted: "sorted_wrt (<) is" "\<forall>i\<in>set is. i < ?n"
      using Cons.prems(3,4) by simp_all
    show ?thesis
    proof (cases "int (length cp') \<ge> min_touches self")
      case small: False
      have run: "cluster_outer self prices timestamps is (levels, used') = Inr out"
        using Cons.prems(1) False t inner small by simp
      show ?thesis
        by (rule Cons.IH [OF run len' rest_sorted J Cons.prems(6) S7 Cons.prems(8,9)])
    next
      case big: True
      from Cons.prems(1) False t inner big obtain l where
        l: "make_level cp' ct' = Inr l"
        and run: "cluster_outer self prices timestamps is (levels @ [l], used') = Inr out"
        by (auto split: sum.splits)
      have pl: "price l = ?M" using l by (rule make_level_price)
      have S6: "\<forall>l'\<in>set (levels @ [l]). \<exists>a\<in>insert ?b S. \<bar>price l' - a\<bar> * 100 \<le> ?t * a"
        using Cons.prems(6) Mband pl by auto
      have S7': "\<forall>a\<in>insert ?b S. 0 < a \<and> (\<forall>j<?n. \<not> used' ! j \<longrightarrow> \<not> near self a (prices ! j))"
        using S7 b F4 by auto
      have d: "distinct (map price (levels @ [l]))"
        using Cons.prems(8) Mnew pl by auto
      have p: "\<forall>l'\<in>set (levels @ [l]). 0 < price l'"
        using Cons.prems(9) Mpos pl by auto
      show ?thesis
        by (rule Cons.IH [OF run len' rest_sorted J S6 S7' d p])
    qed
  qed
qed

lemma cluster_levels_distinct_positive:
  assumes "\<forall>p\<in>set prices. 0 < p" "0 \<le> level_tolerance_pct self"
    and "cluster_levels self prices timestamps = Inr levels"
  shows "distinct (map price levels) \<and> (\<forall>l\<in>set levels. 0 < price l)"
proof (cases "prices = []")
  case True
  then show ?thesis using assms(3) by (simp add: cluster_levels_def)
next
  case False
  then obtain out where out:
    "cluster_outer self prices timestamps [0..<length prices]
       ([], replicate (length prices) False) = Inr out"
    and lv: "levels = sort_key price out"
    using assms(3) by (auto simp add: cluster_levels_def split: sum.splits)
  have "distinct (map price out) \<and> (\<forall>l\<in>set out. 0 < price l)"
    by (rule cluster_outer_distinct [OF assms(1,2) out, where S = "{}"]) simp_all
  moreover have "distinct (map price levels) = distinct (map price out)"
    unfolding lv by (simp add: distinct_map)
  ultimately show ?thesis unfolding lv by simp
qed

lemma recluster_distinct_centroids:
  assumes "cluster_levels self prices timestamps = Inr levels"
    and "distinct (map price levels)" "\<forall>l\<in>set levels. 0 < price l"
    and "length ts = length levels"
  shows "cluster_levels (self\<lparr>level_tolerance_pct := 0\<rparr>) (map price levels) ts =
           Inr (if min_touches self \<le> 1 then map2 touch_level (map price levels) ts else [])"
proof (cases "levels = []")
  case True
  then show ?thesis by (simp add: cluster_levels_def)
next
  case False
  let ?self = "self\<lparr>level_tolerance_pct := 0\<rparr>"
  let ?ps = "map price levels"
  have srt: "sorted ?ps" using assms(1) by (rule cluster_levels_sorted)
  have outer: "cluster_outer ?self ?ps ts [0..<length ?ps] ([], replicate (length ?ps) False) =
           Inr ([] @ (if min_touches ?self \<le> 1
                          then map (\<lambda>i. touch_level (?ps ! i) (ts ! i)) [0..<length ?ps] else []))"
    by (rule cluster_outer_zero_tolerance) (use assms in simp_all)
  have m: "map (\<lambda>i. touch_level (?ps ! i) (ts ! i)) [0..<length ?ps] = map2 touch_level ?ps ts"
    using assms(4) by (intro map_nth_zip) simp
  have pr: "map price (map2 touch_level ?ps ts) = ?ps"
    using assms(4) by (intro nth_equalityI) (simp_all add: touch_level_def)
  have "sort_key price (map2 touch_level ?ps ts) = map2 touch_level ?ps ts"
    by (rule sort_key_id_if_sorted) (simp only: pr srt)
  then show ?thesis using False outer m by (simp add: cluster_levels_def)
qed

text \<open>
  C4, as amended. Take the levels that \<open>cluster_levels\<close> produced from positive prices
  with a tolerance that is not negative, and cluster the list of their centroid prices
  again with the tolerance set to zero. When \<open>min_touches\<close> is at most 1 the result has
  one level for each centroid, with the same prices in the same order, each of strength 1
  and touched at the timestamp given for it; when \<open>min_touches\<close> is 2 or more the result
  is empty.
\<close>

theorem recluster_zero_tolerance:
  assumes "cluster_levels self prices timestamps = Inr levels"
    and "\<forall>p\<in>set prices. 0 < p" "0 \<le> level_tolerance_pct self"
    and "length ts = length levels"
  shows "cluster_levels (self\<lparr>level_tolerance_pct := 0\<rparr>) (map price levels) ts =
           Inr (if min_touches self \<le> 1 then map2 touch_level (map price levels) ts else [])"
proof -
  have "distinct (map price levels) \<and> (\<forall>l\<in>set levels. 0 < price l)"
    using assms(2,3,1) by (rule cluster_levels_distinct_positive)
  then show ?thesis using recluster_distinct_centroids [OF assms(1) _ _ assms(4)] by blast
qed

theorem recluster_zero_tolerance_witness:
  "cluster_levels det_one [100, 100, 200, 200] [0, 1, 2, 3] = Inr [lv100, lv200]
   \<and> 0 \<le> level_tolerance_pct det_one
   \<and> length [0, 2 :: int] = length [lv100, lv200]
   \<and> cluster_levels (det_one\<lparr>level_tolerance_pct := 0\<rparr>) (map price [lv100, lv200]) [0, 2] =
       Inr [touch_level 100 0, touch_level 200 2]"
proof -
  have a: "cluster_levels det_one [100, 100, 200, 200] [0, 1, 2, 3] = Inr [lv100, lv200]"
    by code_simp
  have b: "\<forall>p\<in>set [100, 100, 200, 200 :: real]. 0 < p" by simp
  have c: "0 \<le> level_tolerance_pct det_one" by (simp add: det_one_def)
  have d: "length [0, 2 :: int] = length [lv100, lv200]" by simp
  have "cluster_levels (det_one\<lparr>level_tolerance_pct := 0\<rparr>) (map price [lv100, lv200]) [0, 2] =
          Inr [touch_level 100 0, touch_level 200 2]"
    using recluster_zero_tolerance [OF a b c d] by (simp add: det_one_def lv100_def lv200_def)
  then show ?thesis using a c d by blast
qed

text \<open>
  C4 as stated fails. With the medium preset, four pivots give two levels of strength 2
  at 100 and 200; clustering those two centroids again with zero tolerance gives no level,
  since a cluster of one is below \<open>min_touches = 2\<close>. With \<open>min_touches = 1\<close> the two
  levels come back at the same prices, with strength 1 instead of 2.
\<close>

theorem recluster_counterexample:
  "cluster_levels (create_detector ''medium'') [100, 100, 200, 200] [0, 1, 2, 3] =
     Inr [lv100, lv200]
   \<and> cluster_levels ((create_detector ''medium'')\<lparr>level_tolerance_pct := 0\<rparr>)
         (map price [lv100, lv200]) [0, 2] = Inr []
   \<and> cluster_levels det_one [100, 100, 200, 200] [0, 1, 2, 3] = Inr [lv100, lv200]
   \<and> cluster_levels (det_one\<lparr>level_tolerance_pct := 0\<rparr>) (map price [lv100, lv200]) [0, 2] =
       Inr [touch_level 100 0, touch_level 200 2]
   \<and> map strength [touch_level 100 0, touch_level 200 2] \<noteq> map strength [lv100, lv200]"
  by code_simp

section \<open>Breakout scan\<close>

text \<open>
  What \<open>check_breakout\<close> computes on a frame that is not empty: the greatest index
  above \<open>max(0, n - max_retest_candles)\<close> and below \<open>n\<close> at which the breakout test
  holds, if there is one.
\<close>

lemma breakout_scan_descending:
  assumes "sorted (rev is)" "distinct is"
  shows "breakout_scan self df level r is = Some i \<longleftrightarrow>
           i \<in> set is \<and> breakout_at self df level r (nat i) \<and>
           (\<forall>k\<in>set is. i < k \<longrightarrow> \<not> breakout_at self df level r (nat k))"
  using assms
proof (induction "is")
  case Nil
  then show ?case by simp
next
  case (Cons a "is")
  then have IH: "breakout_scan self df level r is = Some i \<longleftrightarrow>
           i \<in> set is \<and> breakout_at self df level r (nat i) \<and>
           (\<forall>k\<in>set is. i < k \<longrightarrow> \<not> breakout_at self df level r (nat k))"
    by (simp add: sorted_append)
  have lt: "\<forall>k\<in>set is. k < a"
    using Cons.prems by (auto simp add: sorted_append order_less_le)
  show ?case
  proof (cases "breakout_at self df level r (nat a)")
    case True
    then show ?thesis using lt by auto
  next
    case False
    then show ?thesis using IH lt by auto
  qed
qed

lemma breakout_scan_none:
  "breakout_scan self df level r is = None \<longleftrightarrow>
     (\<forall>k\<in>set is. \<not> breakout_at self df level r (nat k))"
  by (induction "is") auto

lemma check_breakout_window:
  assumes "df \<noteq> []"
  shows "(check_breakout self df level r = Inr (Some i) \<longleftrightarrow>
            max 0 (int (length df) - max_retest_candles self) < i \<and> i < int (length df) \<and>
            breakout_at self df level r (nat i) \<and>
            (\<forall>k. i < k \<and> k < int (length df) \<longrightarrow> \<not> breakout_at self df level r (nat k)))
       \<and> (check_breakout self df level r = Inr None \<longleftrightarrow>
            (\<forall>k. max 0 (int (length df) - max_retest_candles self) < k \<and> k < int (length df)
                 \<longrightarrow> \<not> breakout_at self df level r (nat k)))"
proof -
  let ?lo = "max 0 (int (length df) - max_retest_candles self)"
  let ?is = "py_range_down (int (length df) - 1) ?lo"
  have cb: "check_breakout self df level r = Inr (breakout_scan self df level r ?is)"
    using assms by (cases df) (simp_all add: check_breakout_def np_index_def)
  have s: "sorted (rev ?is)" "distinct ?is"
    by (simp_all add: py_range_down_def)
  have m: "k \<in> set ?is \<longleftrightarrow> ?lo < k \<and> k < int (length df)" for k
    by (auto simp add: py_range_down_def)
  have b: "(\<forall>k\<in>set ?is. Q k) \<longleftrightarrow> (\<forall>k. ?lo < k \<and> k < int (length df) \<longrightarrow> Q k)" for Q
    using m by blast
  have "breakout_scan self df level r ?is = Some i \<longleftrightarrow>
            ?lo < i \<and> i < int (length df) \<and>
            breakout_at self df level r (nat i) \<and>
            (\<forall>k. i < k \<and> k < int (length df) \<longrightarrow> \<not> breakout_at self df level r (nat k))"
    unfolding breakout_scan_descending [OF s] b m by auto
  moreover have "breakout_scan self df level r ?is = None \<longleftrightarrow>
            (\<forall>k. ?lo < k \<and> k < int (length df) \<longrightarrow> \<not> breakout_at self df level r (nat k))"
    unfolding breakout_scan_none b by simp
  ultimately show ?thesis using cb by simp
qed

text \<open>
  C3. The claim has \<open>check_breakout\<close> return the most recent index within the last
  \<open>max_retest_candles\<close> candles at which the breakout test holds. On 70 candles with the
  medium preset (50 candles) and a resistance at 5, the test holds at index 20, the first
  of the last 50 candles, and nowhere after it; the scan stops one index short of it and
  returns \<open>None\<close>.
\<close>

theorem check_breakout_misses_window_start:
  "check_breakout (create_detector ''medium'') df70 (lvl 5 2) True = Inr None
   \<and> breakout_at (create_detector ''medium'') df70 (lvl 5 2) True 20
   \<and> int (length df70) - max_retest_candles (create_detector ''medium'') = 20
   \<and> length df70 = 70"
  by code_simp

section \<open>Retest and detection guards\<close>

text \<open>
  The detector on seven candles with a lookback of 1 and a window of 3: the highs at
  indices 1 and 3 make a resistance at 100 of strength 2, the close of 102 at index 5
  breaks it, and the newest candle comes back to it.
\<close>

lemma identify_example:
  "identify_levels det1 df7 = Inr ([lvl 100 2], [lvl 88 2])"
  by code_simp

lemma detect_example:
  "detect det1 df7 ''BTCUSDT'' ''1h'' =
     Inr [\<lparr>sig_symbol = ''BTCUSDT'', sig_timeframe = ''1h'', sig_pattern_type = BULLISH_RETEST,
           sig_level_price = 100, sig_current_price = 1002 / 10,
           distance_to_level_pct = 2 / 10, sig_timestamp = 0, sig_strength = 2\<rparr>]"
  by code_simp

text \<open>
  C9. \<open>check_retest\<close> returns \<open>False\<close> whenever the breakout index is at or beyond the
  newest candle, whatever the prices, the level and the direction.
\<close>

theorem check_retest_breakout_on_newest:
  "breakout_idx \<ge> int (length df) - 1 \<Longrightarrow>
   check_retest self df level breakout_idx is_bullish = Inr False"
  by (simp add: check_retest_def)

theorem check_retest_breakout_on_newest_witness:
  "(4::int) \<ge> int (length df5) - 1 \<and> check_retest det1 df5 (lvl 2 2) 4 True = Inr False"
  using check_retest_breakout_on_newest [of df5 4 det1 "lvl 2 2" True]
  by (simp add: df5_def)

text \<open>
  C1. A frame with fewer than \<open>2 * pivot_lookback + max_retest_candles\<close> candles makes
  \<open>detect\<close> return the empty list, for every symbol and timeframe.
\<close>

theorem detect_short_series:
  "int (length df) < 2 * pivot_lookback self + max_retest_candles self \<Longrightarrow>
   detect self df symbol timeframe = Inr []"
  by (simp add: detect_def)

theorem detect_short_series_witness:
  "int (length df5) < 2 * pivot_lookback (create_detector ''medium'')
                      + max_retest_candles (create_detector ''medium'')
   \<and> detect (create_detector ''medium'') df5 ''BTCUSDT'' ''1h'' = Inr []"
proof -
  have h: "int (length df5) < 2 * pivot_lookback (create_detector ''medium'')
                               + max_retest_candles (create_detector ''medium'')"
    by (simp add: df5_def create_detector_def)
  show ?thesis using h detect_short_series [OF h] by simp
qed

section \<open>The scan service\<close>

text \<open>
  C10. When the filtered query of active watchlist items is empty, \<open>run_scan\<close> returns
  the empty list and the store it leaves is the store it was given: no result row and no
  execution row is added.
\<close>

theorem run_scan_empty_watchlist:
  "watchlist_query db user_id symbols = [] \<Longrightarrow>
   run_scan get_klines_df now db_now db user_id symbols tfs sensitivity = ([], db)"
  by (simp add: run_scan_def)

theorem run_scan_empty_watchlist_witness:
  "watchlist_query db1 1 None = []
   \<and> run_scan (\<lambda>s t n. Inr df5) 0 0 db1 1 None None ''medium'' = ([], db1)"
proof -
  have h: "watchlist_query db1 1 None = []"
    by (simp add: watchlist_query_def db1_def)
  show ?thesis using h run_scan_empty_watchlist [OF h] by simp
qed

text \<open>
  By contrast, a scan over a watchlist that is not empty writes an execution row even
  when it finds no signal.
\<close>

lemma run_scan_records_execution:
  "run_scan (\<lambda>s t n. Inr df7) 0 0 db1 2 None None ''medium'' =
     ([], db1\<lparr>scan_executions :=
                 [\<lparr>se_user_id = 2, symbols_scanned = 1, signals_found = 0,
                   se_sensitivity = ''medium'', se_created_at = 0\<rparr>]\<rparr>)"
  by code_simp











section \<open>Purging duplicates\<close>

lemma mark_duplicates_rows:
  "snd (mark_duplicates xs (seen, d)) = d @ map sr_id (duplicate_rows xs (dom seen))"
proof (induction xs arbitrary: seen d)
  case Nil
  then show ?case by simp
next
  case (Cons x xs)
  show ?case
  proof (cases "seen (signal_key x)")
    case None
    have step: "mark_duplicates (x # xs) (seen, d) =
                  mark_duplicates xs (seen(signal_key x \<mapsto> sr_id x), d)"
      using None by simp
    have rows: "duplicate_rows (x # xs) (dom seen) =
                  duplicate_rows xs (insert (signal_key x) (dom seen))"
      using None by (simp add: domIff)
    have "dom (seen(signal_key x \<mapsto> sr_id x)) = insert (signal_key x) (dom seen)"
      by simp
    with Cons.IH [of "seen(signal_key x \<mapsto> sr_id x)" d] step rows
    show ?thesis by metis
  next
    case (Some a)
    have step: "mark_duplicates (x # xs) (seen, d) = mark_duplicates xs (seen, d @ [sr_id x])"
      using Some by simp
    have rows: "duplicate_rows (x # xs) (dom seen) = x # duplicate_rows xs (dom seen)"
      using Some by (simp add: domIff)
    show ?thesis unfolding step rows Cons.IH [of seen "d @ [sr_id x]"] by simp
  qed
qed

lemma set_kept_duplicate: "set (kept_rows xs S) \<union> set (duplicate_rows xs S) = set xs"
  by (induction xs arbitrary: S) auto

lemma kept_subset: "set (kept_rows xs S) \<subseteq> set xs"
  using set_kept_duplicate by blast

lemma duplicate_subset: "set (duplicate_rows xs S) \<subseteq> set xs"
  using set_kept_duplicate by blast

lemma kept_duplicate_disjoint:
  "distinct xs \<Longrightarrow> set (kept_rows xs S) \<inter> set (duplicate_rows xs S) = {}"
proof (induction xs arbitrary: S)
  case Nil
  then show ?case by simp
next
  case (Cons x xs)
  then show ?case
    by (auto dest: subsetD [OF duplicate_subset] subsetD [OF kept_subset])
qed

lemma distinct_duplicate_rows: "distinct xs \<Longrightarrow> distinct (duplicate_rows xs S)"
proof (induction xs arbitrary: S)
  case Nil
  then show ?case by simp
next
  case (Cons x xs)
  then show ?case by (auto dest: subsetD [OF duplicate_subset])
qed

lemma distinct_kept: "distinct xs \<Longrightarrow> distinct (kept_rows xs S)"
proof (induction xs arbitrary: S)
  case Nil
  then show ?case by simp
next
  case (Cons x xs)
  then show ?case by (auto dest: subsetD [OF kept_subset])
qed

lemma kept_key_not_seen: "x \<in> set (kept_rows xs S) \<Longrightarrow> signal_key x \<notin> S"
  by (induction xs arbitrary: S) (auto split: if_splits)

lemma kept_one_per_key:
  "k \<notin> S \<Longrightarrow> k \<in> signal_key ` set xs \<Longrightarrow>
   length (filter (\<lambda>x. signal_key x = k) (kept_rows xs S)) = 1"
proof (induction xs arbitrary: S)
  case Nil
  then show ?case by simp
next
  case (Cons x xs)
  show ?case
  proof (cases "signal_key x = k")
    case True
    have "filter (\<lambda>y. signal_key y = k) (kept_rows xs (insert k S)) = []"
      using kept_key_not_seen [of _ xs "insert k S"] by (auto simp add: filter_empty_conv)
    then show ?thesis using True Cons.prems by simp
  next
    case False
    then have "k \<in> signal_key ` set xs" using Cons.prems by auto
    then show ?thesis using False Cons.prems Cons.IH by auto
  qed
qed

lemma kept_earliest:
  "sorted (map sr_created_at xs) \<Longrightarrow> x \<in> set (kept_rows xs S) \<Longrightarrow> y \<in> set xs \<Longrightarrow>
   signal_key y = signal_key x \<Longrightarrow> sr_created_at x \<le> sr_created_at y"
proof (induction xs arbitrary: S)
  case Nil
  then show ?case by simp
next
  case (Cons a xs)
  show ?case
  proof (cases "signal_key a \<in> S")
    case True
    then have x: "x \<in> set (kept_rows xs S)" using Cons.prems by simp
    then have "signal_key x \<notin> S" by (rule kept_key_not_seen)
    then have "y \<noteq> a" using True Cons.prems(4) by auto
    then show ?thesis using Cons x by auto
  next
    case False
    show ?thesis
    proof (cases "x = a")
      case True
      then show ?thesis using Cons.prems by auto
    next
      case xa: False
      then have x: "x \<in> set (kept_rows xs (insert (signal_key a) S))"
        using False Cons.prems by simp
      then have "signal_key x \<noteq> signal_key a" using kept_key_not_seen by fastforce
      then have "y \<noteq> a" using Cons.prems(4) by auto
      then show ?thesis using Cons x by auto
    qed
  qed
qed

text \<open>
  C6. On a store whose row ids are distinct, \<open>clear_duplicate_signals\<close> for a user
  leaves, for every key \<open>(symbol, timeframe, pattern_type, round(level_price, 2))\<close> among
  that user's rows, exactly one row of that user with that key; the row left was created
  no later than any other row of the user with the key. Rows of other users stay, no row
  is added, the number returned is the number of rows removed, and the other tables are
  unchanged. No time window enters.
\<close>

theorem clear_duplicate_signals_keeps_earliest:
  assumes ids: "distinct (map sr_id (scan_results db))"
    and run: "clear_duplicate_signals db user_id = (n, db')"
  shows "(\<forall>r\<in>set (scan_results db). sr_user_id r = user_id \<longrightarrow>
            length (filter (\<lambda>r'. sr_user_id r' = user_id \<and> signal_key r' = signal_key r)
                      (scan_results db')) = 1)
       \<and> (\<forall>r'\<in>set (scan_results db'). \<forall>r\<in>set (scan_results db).
            sr_user_id r' = user_id \<and> sr_user_id r = user_id \<and> signal_key r = signal_key r'
            \<longrightarrow> sr_created_at r' \<le> sr_created_at r)
       \<and> (\<forall>r\<in>set (scan_results db). sr_user_id r \<noteq> user_id \<longrightarrow> r \<in> set (scan_results db'))
       \<and> set (scan_results db') \<subseteq> set (scan_results db)
       \<and> distinct (map sr_id (scan_results db'))
       \<and> n = int (length (scan_results db)) - int (length (scan_results db'))
       \<and> scan_executions db' = scan_executions db
       \<and> watchlist_items db' = watchlist_items db"
proof -
  let ?store = "scan_results db"
  let ?all = "sort_key sr_created_at (filter (\<lambda>r. sr_user_id r = user_id) ?store)"
  let ?dups = "duplicate_rows ?all {}"
  let ?kept = "kept_rows ?all {}"
  let ?D = "map sr_id ?dups"
  let ?store' = "scan_results db'"
  have dstore: "distinct ?store" using ids by (rule distinct_map [THEN iffD1, THEN conjunct1])
  have inj: "inj_on sr_id (set ?store)" using ids by (simp add: distinct_map)
  have set_all: "set ?all = {r \<in> set ?store. sr_user_id r = user_id}" by auto
  have dall: "distinct ?all" using dstore by simp
  have sall: "sorted (map sr_created_at ?all)" by simp
  have ddups: "distinct ?dups" using dall by (rule distinct_duplicate_rows)
  have dups_all: "set ?dups \<subseteq> set ?all" by (rule duplicate_subset)
  have kept_all: "set ?kept \<subseteq> set ?all" by (rule kept_subset)
  have part: "set ?kept \<union> set ?dups = set ?all" by (rule set_kept_duplicate)
  have disj: "set ?kept \<inter> set ?dups = {}" using dall by (rule kept_duplicate_disjoint)
  have sndmd: "snd (mark_duplicates ?all (Map.empty, [])) = ?D"
    by (simp add: mark_duplicates_rows)
  have cds: "clear_duplicate_signals db user_id =
      (if ?D \<noteq> [] then
         (int (length ?D), db\<lparr>scan_results := filter (\<lambda>r. sr_id r \<notin> set ?D) ?store\<rparr>)
       else (int (length ?D), db))"
    unfolding clear_duplicate_signals_def Let_def split_beta sndmd by (rule refl)
  have n: "n = int (length ?dups)"
    using run unfolding cds by (simp split: if_splits)
  have store': "?store' = filter (\<lambda>r. sr_id r \<notin> set ?D) ?store"
  proof (cases "?D = []")
    case True
    then have "db' = db" using run unfolding cds by simp
    then show ?thesis using True by simp
  next
    case False
    then have "db' = db\<lparr>scan_results := filter (\<lambda>r. sr_id r \<notin> set ?D) ?store\<rparr>"
      using run unfolding cds by simp
    then show ?thesis by simp
  qed
  have rest: "scan_executions db' = scan_executions db" "watchlist_items db' = watchlist_items db"
    using run unfolding cds by (auto split: if_splits)
  have idmem: "sr_id r \<in> set ?D \<longleftrightarrow> r \<in> set ?dups" if "r \<in> set ?store" for r
  proof
    assume "sr_id r \<in> set ?D"
    then obtain d where d: "d \<in> set ?dups" "sr_id d = sr_id r" by auto
    then have "d \<in> set ?store" using dups_all set_all by blast
    then have "d = r" using inj d(2) that by (auto dest: inj_onD)
    then show "r \<in> set ?dups" using d(1) by simp
  next
    assume "r \<in> set ?dups"
    then show "sr_id r \<in> set ?D" by simp
  qed
  have store'': "?store' = filter (\<lambda>r. r \<notin> set ?dups) ?store"
    unfolding store' by (rule filter_cong) (use idmem in auto)
  have sub: "set ?store' \<subseteq> set ?store" unfolding store'' by auto
  have dids: "distinct (map sr_id ?store')" unfolding store'' using ids by (rule distinct_map_filter)
  have others: "\<forall>r\<in>set ?store. sr_user_id r \<noteq> user_id \<longrightarrow> r \<in> set ?store'"
    unfolding store'' using dups_all set_all by auto
  have mine: "{r \<in> set ?store'. sr_user_id r = user_id} = set ?kept"
    unfolding store'' using part disj set_all by auto
  have one: "length (filter (\<lambda>r'. sr_user_id r' = user_id \<and> signal_key r' = signal_key r) ?store') = 1"
    if r: "r \<in> set ?store" "sr_user_id r = user_id" for r
  proof -
    let ?k = "signal_key r"
    have kin: "?k \<in> signal_key ` set ?all" using r set_all by blast
    have knot: "?k \<notin> {}" by simp
    have k1: "length (filter (\<lambda>x. signal_key x = ?k) ?kept) = 1"
      using knot kin by (rule kept_one_per_key)
    let ?A = "filter (\<lambda>r'. sr_user_id r' = user_id \<and> signal_key r' = ?k) ?store'"
    let ?B = "filter (\<lambda>x. signal_key x = ?k) ?kept"
    have "set ?A = {r \<in> set ?store'. sr_user_id r = user_id} \<inter> {x. signal_key x = ?k}"
      by auto
    also have "\<dots> = set ?kept \<inter> {x. signal_key x = ?k}" by (simp only: mine)
    also have "\<dots> = set ?B" by auto
    finally have AB: "set ?A = set ?B" .
    have dA: "distinct ?A" unfolding store'' using dstore by simp
    have dB: "distinct ?B" using dall by (simp add: distinct_kept)
    have "length ?A = card (set ?A)" by (rule distinct_card [OF dA, symmetric])
    also have "\<dots> = card (set ?B)" by (simp only: AB)
    also have "\<dots> = length ?B" by (rule distinct_card [OF dB])
    finally have "length ?A = length ?B" .
    then show ?thesis using k1 by simp
  qed
  have early: "sr_created_at r' \<le> sr_created_at r"
    if "r' \<in> set ?store'" "r \<in> set ?store" "sr_user_id r' = user_id" "sr_user_id r = user_id"
       "signal_key r = signal_key r'" for r r'
  proof -
    have "r' \<in> set ?kept" using that(1,3) mine by blast
    moreover have "r \<in> set ?all" using that(2,4) set_all by blast
    ultimately show ?thesis using kept_earliest [OF sall] that(5) by blast
  qed
  have cnt: "n = int (length ?store) - int (length ?store')"
  proof -
    let ?gone = "filter (\<lambda>r. r \<in> set ?dups) ?store"
    have sg: "set ?gone = set ?dups" using dups_all set_all by auto
    have dg: "distinct ?gone" using dstore by simp
    have "length ?gone = card (set ?gone)" by (rule distinct_card [OF dg, symmetric])
    also have "\<dots> = card (set ?dups)" by (simp only: sg)
    also have "\<dots> = length ?dups" by (rule distinct_card [OF ddups])
    finally have "length ?gone = length ?dups" .
    moreover have "length ?store' + length ?gone = length ?store"
      unfolding store'' using sum_length_filter_compl [of "\<lambda>r. r \<notin> set ?dups" ?store] by simp
    ultimately show ?thesis using n by linarith
  qed
  show ?thesis using one early others sub dids cnt rest by blast
qed

theorem clear_duplicate_signals_keeps_earliest_witness:
  "distinct (map sr_id (scan_results db3))
   \<and> clear_duplicate_signals db3 1 = (1, db3')
   \<and> length (filter (\<lambda>r'. sr_user_id r' = 1 \<and>
                 signal_key r' = signal_key (row 1 1 ''BTCUSDT'' (100001 / 1000) 5))
         (scan_results db3')) = 1
   \<and> row 4 2 ''BTCUSDT'' (100001 / 1000) 0 \<in> set (scan_results db3')
   \<and> (1::int) = int (length (scan_results db3)) - int (length (scan_results db3'))"
proof -
  have a: "distinct (map sr_id (scan_results db3))" by (simp add: db3_def row_def)
  have b: "clear_duplicate_signals db3 1 = (1, db3')" by code_simp
  note t = clear_duplicate_signals_keeps_earliest [OF a b]
  have m1: "row 1 1 ''BTCUSDT'' (100001 / 1000) 5 \<in> set (scan_results db3)"
    and u1: "sr_user_id (row 1 1 ''BTCUSDT'' (100001 / 1000) 5) = 1"
    and m4: "row 4 2 ''BTCUSDT'' (100001 / 1000) 0 \<in> set (scan_results db3)"
    and u4: "sr_user_id (row 4 2 ''BTCUSDT'' (100001 / 1000) 0) \<noteq> 1"
    by (simp_all add: db3_def row_def)
  from t m1 u1 have c1: "length (filter (\<lambda>r'. sr_user_id r' = 1 \<and>
                 signal_key r' = signal_key (row 1 1 ''BTCUSDT'' (100001 / 1000) 5))
         (scan_results db3')) = 1" by blast
  from t m4 u4 have c2: "row 4 2 ''BTCUSDT'' (100001 / 1000) 0 \<in> set (scan_results db3')" by blast
  from t have c3: "(1::int) = int (length (scan_results db3)) - int (length (scan_results db3'))"
    by blast
  show ?thesis using a b c1 c2 c3 by blast
qed

section \<open>The scheduler\<close>

text \<open>
  C7. \<open>get_new_signals\<close> for a user returns the whole list queued for that user, in
  order, or the empty list when nothing is queued; afterwards nothing is queued for that
  user, the queue of every other user is as before, and so is the rest of the scheduler.
  Taking again at once returns the empty list. After a tick has filed a user's results,
  taking returns what was queued before followed by the entries of those results.
\<close>

theorem get_new_signals_takes_all:
  "fst (get_new_signals u s) = (case new_signals s u of None \<Rightarrow> [] | Some es \<Rightarrow> es)
   \<and> new_signals (snd (get_new_signals u s)) u = None
   \<and> (\<forall>v. v \<noteq> u \<longrightarrow> new_signals (snd (get_new_signals u s)) v = new_signals s v)
   \<and> fst (get_new_signals u (snd (get_new_signals u s))) = []
   \<and> is_running (snd (get_new_signals u s)) = is_running s
   \<and> interval_minutes (snd (get_new_signals u s)) = interval_minutes s
   \<and> last_scan_time (snd (get_new_signals u s)) = last_scan_time s
   \<and> (results \<noteq> [] \<longrightarrow>
        fst (get_new_signals u (store_new_signals u results s)) =
          (case new_signals s u of None \<Rightarrow> [] | Some es \<Rightarrow> es) @ map entry_of results)"
  by (simp add: get_new_signals_def store_new_signals_def Let_def split: option.splits)

theorem get_new_signals_takes_all_witness:
  "fst (get_new_signals 1 (init\<lparr>new_signals := [1 \<mapsto> [e1], 2 \<mapsto> [e1, e1]]\<rparr>)) = [e1]
   \<and> (2::int) \<noteq> 1
   \<and> new_signals (snd (get_new_signals 1 (init\<lparr>new_signals := [1 \<mapsto> [e1], 2 \<mapsto> [e1, e1]]\<rparr>))) 2
       = Some [e1, e1]"
  using get_new_signals_takes_all [of 1 "init\<lparr>new_signals := [1 \<mapsto> [e1], 2 \<mapsto> [e1, e1]]\<rparr>"]
  by (simp add: init_def)

text \<open>
  C8. The scheduler has two states. From Stopped, the start endpoint moves it to
  Running with the requested interval clamped to \<open>[1, 60]\<close> (the scheduler's own
  \<open>start\<close>, which the endpoint calls with the clamped value, keeps the interval it is
  given); from Running, starting changes nothing. \<open>stop\<close> moves Running to Stopped and changes nothing when Stopped.
  From Stopped, after starting with 5 the status reports running with interval 5, and
  after a following stop it reports not running.
\<close>

theorem scheduler_state_machine:
  "(\<not> is_running s \<longrightarrow>
      is_running (start_auto_scanner n s)
      \<and> interval_minutes (start_auto_scanner n s) = max 1 (min 60 n)
      \<and> 1 \<le> interval_minutes (start_auto_scanner n s)
      \<and> interval_minutes (start_auto_scanner n s) \<le> 60)
   \<and> (\<not> is_running s \<longrightarrow> is_running (start n s) \<and> interval_minutes (start n s) = n)
   \<and> (is_running s \<longrightarrow> start_auto_scanner n s = s \<and> start n s = s)
   \<and> (is_running s \<longrightarrow> \<not> is_running (stop s))
   \<and> (\<not> is_running s \<longrightarrow> stop s = s)
   \<and> (\<not> is_running s \<longrightarrow>
        st_is_running (get_status (start_auto_scanner 5 s))
        \<and> st_interval_minutes (get_status (start_auto_scanner 5 s)) = 5
        \<and> \<not> st_is_running (get_status (stop (start_auto_scanner 5 s))))"
  by (auto simp add: start_auto_scanner_def start_def stop_def get_status_def Let_def)

theorem scheduler_state_machine_witness:
  "\<not> is_running init
   \<and> is_running (start_auto_scanner 90 init)
   \<and> interval_minutes (start_auto_scanner 90 init) = 60
   \<and> start_auto_scanner 7 (start_auto_scanner 90 init) = start_auto_scanner 90 init
   \<and> \<not> is_running (stop (start_auto_scanner 90 init))
   \<and> stop init = init
   \<and> st_interval_minutes (get_status (start_auto_scanner 5 init)) = 5"
  using scheduler_state_machine [of init 90]
    scheduler_state_machine [of "start_auto_scanner 90 init" 7]
  by (simp add: init_def)

end
